theory Spec2Isabelle
  imports Main "HOL-Library.Word"
begin

unbundle bit_operations_syntax

section \<open>Memory\<close>

text \<open>
  Both allocators manage one contiguous segment of a 64-bit address space. Addresses and
  sizes (\<open>size_t\<close>, \<open>unsigned long\<close>, pointers) are 64-bit words whose arithmetic wraps
  around. Memory is byte addressed; a header field is an 8-byte little-endian word.
\<close>

type_synonym addr = "64 word"
type_synonym memory = "addr \<Rightarrow> 8 word"

abbreviation NULL :: addr where
  "NULL \<equiv> 0"

definition load64 :: "memory \<Rightarrow> addr \<Rightarrow> 64 word" where
  "load64 m a =
     ucast (m a) OR push_bit 8 (ucast (m (a + 1))) OR push_bit 16 (ucast (m (a + 2))) OR
     push_bit 24 (ucast (m (a + 3))) OR push_bit 32 (ucast (m (a + 4))) OR
     push_bit 40 (ucast (m (a + 5))) OR push_bit 48 (ucast (m (a + 6))) OR
     push_bit 56 (ucast (m (a + 7)))"

definition store64 :: "memory \<Rightarrow> addr \<Rightarrow> 64 word \<Rightarrow> memory" where
  "store64 m a v = (\<lambda>x. if x - a < 8 then ucast (drop_bit (8 * unat (x - a)) v) else m x)"

text \<open>
  \<open>memcpy(dst, src, n)\<close>: every destination byte receives the source byte as it was before
  the call.
\<close>

definition memcpy :: "memory \<Rightarrow> addr \<Rightarrow> addr \<Rightarrow> 64 word \<Rightarrow> memory" where
  "memcpy m dst src n = (\<lambda>x. if x - dst < n then m (src + (x - dst)) else m x)"

text \<open>
  Modelled from the spec: \<open>allocator.h\<close> is not among the sources; the spec fixes the
  alignment unit (and header size) at 8 bytes. The maximum request size of that header is a
  parameter \<open>MAX_REQUEST_SIZE\<close> of the functions that use it.
\<close>

definition ALIGNMENT :: "64 word" where
  "ALIGNMENT = 8"

definition FREE_MASK :: "64 word" where
  "FREE_MASK = 7"

definition PAYLOAD_MASK :: "64 word" where
  "PAYLOAD_MASK = NOT 7"

text \<open>The globals shared by both files; the explicit allocator adds the free-list head.\<close>

record region =
  mem :: memory
  segment_start :: addr
  segment_size :: "64 word"
  heap_end :: addr

record heap = region +
  freelist_start :: addr

datatype error = NullWrite | AssertFailed


section \<open>explicit.c\<close>

text \<open>The fields of \<open>struct header\<close>: \<open>payload\<close> at offset 0, \<open>prev\<close> at 8, \<open>next\<close> at 16.\<close>

definition payload_of :: "memory \<Rightarrow> addr \<Rightarrow> 64 word" where
  "payload_of m block = load64 m block"

definition prev_of :: "memory \<Rightarrow> addr \<Rightarrow> addr" where
  "prev_of m block = load64 m (block + 8)"

definition next_of :: "memory \<Rightarrow> addr \<Rightarrow> addr" where
  "next_of m block = load64 m (block + 16)"

definition myinit :: "heap \<Rightarrow> addr \<Rightarrow> 64 word \<Rightarrow> heap \<times> bool" where
  "myinit s heap_start heap_size =
     (if heap_size < ALIGNMENT * 3 then (s, False)
      else
        let m1 = store64 (mem s) heap_start (heap_size - ALIGNMENT);
            m2 = store64 m1 (heap_start + 8) NULL;
            m3 = store64 m2 (heap_start + 16) NULL
        in (s\<lparr>mem := m3, segment_start := heap_start, segment_size := heap_size,
               heap_end := heap_start + heap_size, freelist_start := heap_start\<rparr>, True))"

definition get_payload :: "memory \<Rightarrow> addr \<Rightarrow> 64 word" where
  "get_payload m block = payload_of m block AND PAYLOAD_MASK"

definition check_free :: "memory \<Rightarrow> addr \<Rightarrow> bool" where
  "check_free m block =
     (if block = NULL then False else payload_of m block AND FREE_MASK = 0)"

definition roundup :: "64 word \<Rightarrow> 64 word \<Rightarrow> 64 word" where
  "roundup sz mult =
     (let corrected = (sz + mult - 1) AND NOT (mult - 1)
      in if corrected < 16 then 16 else corrected)"

partial_function (option) search_from :: "memory \<Rightarrow> 64 word \<Rightarrow> addr \<Rightarrow> addr option" where
  "search_from m request cur =
     (if cur = NULL then Some NULL
      else if check_free m cur \<and> request \<le> get_payload m cur then Some cur
      else search_from m request (next_of m cur))"

definition search_freelist :: "heap \<Rightarrow> 64 word \<Rightarrow> addr option" where
  "search_freelist s request = search_from (mem s) request (freelist_start s)"

definition remove_freelist :: "heap \<Rightarrow> addr \<Rightarrow> heap" where
  "remove_freelist s new =
     (let curr_prev = prev_of (mem s) new; curr_next = next_of (mem s) new
      in if curr_prev = NULL then
           (if curr_next = NULL then s\<lparr>freelist_start := NULL\<rparr>
            else s\<lparr>mem := store64 (mem s) (curr_next + 8) NULL, freelist_start := curr_next\<rparr>)
         else
           let m1 = (if curr_next \<noteq> NULL then store64 (mem s) (curr_next + 8) curr_prev
                     else mem s);
               m2 = (if curr_prev \<noteq> NULL then store64 m1 (curr_prev + 16) curr_next else m1)
           in s\<lparr>mem := m2\<rparr>)"

definition get_next_block :: "heap \<Rightarrow> addr \<Rightarrow> addr" where
  "get_next_block s block =
     (let payload_val = get_payload (mem s) block;
          next_location = block + payload_val + ALIGNMENT
      in if next_location = heap_end s then NULL else next_location)"

definition coalesce :: "heap \<Rightarrow> addr \<Rightarrow> heap" where
  "coalesce s block =
     (let next_block = get_next_block s block;
          free = check_free (mem s) next_block
      in if next_block = NULL \<or> \<not> free then s
         else
           let next_payload_val = get_payload (mem s) next_block;
               added_space = next_payload_val + ALIGNMENT;
               s1 = remove_freelist s next_block
           in s1\<lparr>mem := store64 (mem s1) block (payload_of (mem s1) block + added_space)\<rparr>)"

definition add_freelist :: "heap \<Rightarrow> addr \<Rightarrow> heap" where
  "add_freelist s new =
     (if freelist_start s = NULL then
        s\<lparr>mem := store64 (store64 (mem s) (new + 8) NULL) (new + 16) NULL,
          freelist_start := new\<rparr>
      else
        let m1 = store64 (mem s) (freelist_start s + 8) new;
            m2 = store64 m1 (new + 16) (freelist_start s);
            m3 = store64 m2 (new + 8) NULL
        in s\<lparr>mem := m3, freelist_start := new\<rparr>)"

definition add_block :: "heap \<Rightarrow> addr \<Rightarrow> 64 word \<Rightarrow> heap" where
  "add_block s block request =
     (let free = check_free (mem s) block;
          payload_val = get_payload (mem s) block;
          m1 = store64 (mem s) block (request + 1);
          new = block + request + ALIGNMENT;
          s1 = s\<lparr>mem := store64 m1 new (payload_val - request - ALIGNMENT)\<rparr>;
          s2 = (if free then remove_freelist s1 block else s1)
      in coalesce (add_freelist s2 new) new)"

partial_function (option) coalesce_multiple_blocks :: "heap \<Rightarrow> addr \<Rightarrow> 64 word \<Rightarrow> heap option"
  where
  "coalesce_multiple_blocks s block req =
     (if check_free (mem s) (get_next_block s block) \<and> get_payload (mem s) block < req
      then coalesce_multiple_blocks (coalesce s block) block req
      else Some s)"

definition mymalloc :: "64 word \<Rightarrow> heap \<Rightarrow> 64 word \<Rightarrow> (heap \<times> addr) option" where
  "mymalloc MAX_REQUEST_SIZE s requested_size =
     (let request = roundup requested_size ALIGNMENT
      in case search_freelist s request of
           None \<Rightarrow> None
         | Some free_location \<Rightarrow>
             if free_location = NULL then Some (s, NULL)
             else if MAX_REQUEST_SIZE < request then Some (s, NULL)
             else
               let payload_val = get_payload (mem s) free_location
               in if free_location + payload_val + ALIGNMENT = heap_end s
                     \<and> request + ALIGNMENT * 3 \<le> payload_val
                  then Some (add_block s free_location request, free_location + ALIGNMENT)
                  else
                    let s1 = s\<lparr>mem := store64 (mem s) free_location
                                        (payload_of (mem s) free_location + 1)\<rparr>
                    in Some (remove_freelist s1 free_location, free_location + ALIGNMENT))"

definition myfree :: "heap \<Rightarrow> addr \<Rightarrow> heap" where
  "myfree s ptr =
     (if ptr = NULL then s
      else
        let block = ptr - ALIGNMENT;
            s1 = s\<lparr>mem := store64 (mem s) block (payload_of (mem s) block - 1)\<rparr>
        in coalesce (add_freelist s1 block) block)"

text \<open>
  \<open>myrealloc\<close> hands the result of \<open>mymalloc\<close> to \<open>memcpy\<close> unchecked. Copying to the null
  pointer is undefined behaviour (a segmentation fault in practice); it is the error
  \<open>NullWrite\<close>. \<open>memcpy\<close> returns its destination, which \<open>assert(check != NULL)\<close> tests.
\<close>

definition myrealloc :: "64 word \<Rightarrow> heap \<Rightarrow> addr \<Rightarrow> 64 word \<Rightarrow> (error + heap \<times> addr) option"
  where
  "myrealloc MAX_REQUEST_SIZE s old_ptr new_size =
     (if old_ptr = NULL then map_option Inr (mymalloc MAX_REQUEST_SIZE s new_size)
      else
        let request = roundup new_size ALIGNMENT;
            old_header = old_ptr - ALIGNMENT;
            old_size = get_payload (mem s) old_header
        in if new_size = 0 then Some (Inr (myfree s old_ptr, NULL))
           else
             case coalesce_multiple_blocks s old_header request of
               None \<Rightarrow> None
             | Some s1 \<Rightarrow>
                 if request \<le> get_payload (mem s1) old_header then
                   let block_end = get_payload (mem s1) old_header + old_ptr;
                       s2 = (if block_end = heap_end s1
                                \<and> request + ALIGNMENT * 3 < get_payload (mem s1) old_header
                             then
                               let new = old_ptr + request;
                                   m1 = store64 (mem s1) new
                                          (get_payload (mem s1) old_header - request - ALIGNMENT);
                                   m2 = store64 m1 old_header (request + 1)
                               in add_freelist (s1\<lparr>mem := m2\<rparr>) new
                             else s1);
                       s3 = (if block_end \<noteq> heap_end s2 \<and> request + ALIGNMENT * 3 \<le> old_size
                             then add_block s2 old_header request
                             else s2)
                   in Some (Inr (s3, old_ptr))
                 else
                   (case mymalloc MAX_REQUEST_SIZE s1 new_size of
                      None \<Rightarrow> None
                    | Some (s2, new_ptr) \<Rightarrow>
                        if new_ptr = NULL then Some (Inl NullWrite)
                        else
                          let s3 = s2\<lparr>mem := memcpy (mem s2) new_ptr old_ptr old_size\<rparr>;
                              check = new_ptr
                          in if check = NULL then Some (Inl AssertFailed)
                             else Some (Inr (myfree s3 old_ptr, new_ptr))))"


section \<open>implicit.c\<close>

definition roundup_implicit :: "64 word \<Rightarrow> 64 word \<Rightarrow> 64 word" where
  "roundup_implicit sz mult = (sz + mult - 1) AND NOT (mult - 1)"

definition myinit_implicit :: "region \<Rightarrow> addr \<Rightarrow> 64 word \<Rightarrow> region \<times> bool" where
  "myinit_implicit s heap_start heap_size =
     (if heap_size < ALIGNMENT * 2 then (s, False)
      else (s\<lparr>mem := store64 (mem s) heap_start (heap_size - ALIGNMENT),
               segment_start := heap_start, segment_size := heap_size,
               heap_end := heap_start + heap_size\<rparr>, True))"

partial_function (option) malloc_scan :: "region \<Rightarrow> 64 word \<Rightarrow> addr \<Rightarrow> (region \<times> addr) option"
  where
  "malloc_scan s request index =
     (if index = heap_end s then Some (s, NULL)
      else
        let payload = load64 (mem s) index;
            free = (payload AND FREE_MASK = 0);
            payload_value = payload AND PAYLOAD_MASK
        in if index + payload_value + ALIGNMENT = heap_end s then
             (if \<not> free \<or> payload_value < request then Some (s, NULL)
              else if free \<and> request + ALIGNMENT * 2 \<le> payload_value then
                Some (s\<lparr>mem := store64 (store64 (mem s) index (request + 1))
                                  (index + request + ALIGNMENT)
                                  (payload_value - request - ALIGNMENT)\<rparr>,
                      index + ALIGNMENT)
              else Some (s\<lparr>mem := store64 (mem s) index (request + 1)\<rparr>, index + ALIGNMENT))
           else if free \<and> request \<le> payload_value then
             Some (s\<lparr>mem := store64 (mem s) index (payload + 1)\<rparr>, index + ALIGNMENT)
           else malloc_scan s request (index + payload_value + ALIGNMENT))"

definition mymalloc_implicit :: "region \<Rightarrow> 64 word \<Rightarrow> (region \<times> addr) option" where
  "mymalloc_implicit s requested_size =
     (if requested_size = 0 then Some (s, NULL)
      else malloc_scan s (roundup_implicit requested_size ALIGNMENT) (segment_start s))"

definition myfree_implicit :: "region \<Rightarrow> addr \<Rightarrow> region" where
  "myfree_implicit s ptr =
     (if ptr = NULL then s
      else
        let block = ptr - ALIGNMENT
        in s\<lparr>mem := store64 (mem s) block (load64 (mem s) block - 1)\<rparr>)"

definition myrealloc_implicit :: "region \<Rightarrow> addr \<Rightarrow> 64 word \<Rightarrow> (error + region \<times> addr) option"
  where
  "myrealloc_implicit s old_ptr new_size =
     (if old_ptr = NULL then map_option Inr (mymalloc_implicit s new_size)
      else if old_ptr \<noteq> NULL \<and> new_size = 0 then Some (Inr (myfree_implicit s old_ptr, NULL))
      else
        case mymalloc_implicit s new_size of
          None \<Rightarrow> None
        | Some (s1, new_ptr) \<Rightarrow>
            if new_ptr = NULL then Some (Inl NullWrite)
            else
              let s2 = s1\<lparr>mem := memcpy (mem s1) new_ptr old_ptr new_size\<rparr>;
                  check = new_ptr
              in if check = NULL then Some (Inl AssertFailed)
                 else Some (Inr (myfree_implicit s2 old_ptr, new_ptr)))"


section \<open>Heap structure\<close>

text \<open>
  \<open>walk m a e bs\<close>: stepping from \<open>a\<close> by header size plus payload size visits exactly the
  block addresses \<open>bs\<close>, never passes \<open>e\<close> and lands on \<open>e\<close>.
\<close>

fun walk :: "memory \<Rightarrow> addr \<Rightarrow> addr \<Rightarrow> addr list \<Rightarrow> bool" where
  "walk m a e [] = (a = e)"
| "walk m a e (b # bs) =
     (b = a \<and> unat a + 8 + unat (load64 m a AND PAYLOAD_MASK) \<le> unat e
      \<and> walk m (a + (load64 m a AND PAYLOAD_MASK) + ALIGNMENT) e bs)"

text \<open>
  \<open>blocks\<close> is the walk of the explicit allocator: in addition every payload has room for
  the two free-list links and every header stores its payload size, plus one when used.
\<close>

fun blocks :: "memory \<Rightarrow> addr \<Rightarrow> addr \<Rightarrow> addr list \<Rightarrow> bool" where
  "blocks m a e [] = (a = e)"
| "blocks m a e (b # bs) =
     (b = a \<and> 16 \<le> unat (get_payload m a) \<and> unat (payload_of m a AND FREE_MASK) \<le> 1
      \<and> unat a + 8 + unat (get_payload m a) \<le> unat e
      \<and> blocks m (a + get_payload m a + ALIGNMENT) e bs)"

text \<open>
  \<open>dll m p h xs\<close>: following \<open>next\<close> from \<open>h\<close> visits exactly \<open>xs\<close> and then the null
  pointer, and every \<open>prev\<close> points back (\<open>p\<close> is the \<open>prev\<close> of the first node).
\<close>

fun dll :: "memory \<Rightarrow> addr \<Rightarrow> addr \<Rightarrow> addr list \<Rightarrow> bool" where
  "dll m p h [] = (h = NULL)"
| "dll m p h (x # xs) = (h = x \<and> x \<noteq> NULL \<and> prev_of m x = p \<and> dll m x (next_of m x) xs)"

text \<open>Traversal of the free list from \<open>h\<close> with at most \<open>k\<close> steps; \<open>None\<close> when it is longer.\<close>

fun follow :: "memory \<Rightarrow> addr \<Rightarrow> nat \<Rightarrow> addr list option" where
  "follow m h 0 = (if h = NULL then Some [] else None)"
| "follow m h (Suc k) =
     (if h = NULL then Some [] else map_option ((#) h) (follow m (next_of m h) k))"

definition region_ok :: "heap \<Rightarrow> bool" where
  "region_ok s \<longleftrightarrow>
     segment_start s \<noteq> NULL
     \<and> unat (segment_start s) + unat (segment_size s) = unat (heap_end s)
     \<and> unat (heap_end s) + 16 \<le> 2 ^ 64"

text \<open>The structure that holds also in the middle of an operation.\<close>

definition wf :: "heap \<Rightarrow> addr list \<Rightarrow> addr list \<Rightarrow> bool" where
  "wf s bs fl \<longleftrightarrow>
     region_ok s
     \<and> blocks (mem s) (segment_start s) (heap_end s) bs
     \<and> dll (mem s) NULL (freelist_start s) fl
     \<and> distinct fl \<and> set fl \<subseteq> set bs"

text \<open>
  The invariant of the explicit allocator between calls: \<open>bs\<close> are the blocks in address
  order, \<open>fl\<close> is the free list in list order, and the free list holds exactly the blocks
  whose header says free.
\<close>

definition heap_inv :: "heap \<Rightarrow> addr list \<Rightarrow> addr list \<Rightarrow> bool" where
  "heap_inv s bs fl \<longleftrightarrow> wf s bs fl \<and> (\<forall>b\<in>set bs. check_free (mem s) b \<longleftrightarrow> b \<in> set fl)"

text \<open>Two block addresses whose headers and link fields do not overlap.\<close>

definition far :: "addr \<Rightarrow> addr \<Rightarrow> bool" where
  "far x y \<longleftrightarrow> unat x + 24 \<le> unat y \<or> unat y + 24 \<le> unat x"

definition fits :: "addr \<Rightarrow> bool" where
  "fits x \<longleftrightarrow> unat x + 24 \<le> 2 ^ 64"


definition sep :: "addr set \<Rightarrow> bool" where
  "sep X \<longleftrightarrow> (\<forall>x\<in>X. fits x) \<and> (\<forall>x\<in>X. \<forall>y\<in>X. x \<noteq> y \<longrightarrow> far x y)"

text \<open>The block list after a split of \<open>b\<close>: the remainder \<open>n\<close> follows \<open>b\<close>.\<close>

fun insert_after :: "'a \<Rightarrow> 'a \<Rightarrow> 'a list \<Rightarrow> 'a list" where
  "insert_after b n [] = []"
| "insert_after b n (x # xs) = (if x = b then x # n # xs else x # insert_after b n xs)"

text \<open>
  \<open>keeps s bs s' bs' b\<close>: every used block of \<open>s\<close> other than \<open>b\<close> is still a block
  of \<open>s'\<close>, with the same header.
\<close>

definition keeps :: "heap \<Rightarrow> addr list \<Rightarrow> heap \<Rightarrow> addr list \<Rightarrow> addr \<Rightarrow> bool" where
  "keeps s bs s' bs' b \<longleftrightarrow>
     (\<forall>y\<in>set bs. y \<noteq> b \<longrightarrow> \<not> check_free (mem s) y
        \<longrightarrow> y \<in> set bs' \<and> payload_of (mem s') y = payload_of (mem s) y)"

text \<open>The live pointers of the client are payload addresses of used blocks.\<close>

definition live_ok :: "heap \<Rightarrow> addr list \<Rightarrow> addr list \<Rightarrow> bool" where
  "live_ok s bs live \<longleftrightarrow>
     (\<forall>p\<in>set live. p - ALIGNMENT \<in> set bs \<and> \<not> check_free (mem s) (p - ALIGNMENT))"

section \<open>Call sequences\<close>

text \<open>
  A client calls the four entry points. \<open>myinit\<close> gets a segment that does not start at the
  null pointer, does not reach the end of the address space, and whose size is a multiple of
  the alignment. \<open>myfree\<close> and \<open>myrealloc\<close> get the null pointer or a pointer that an
  earlier call returned and that was not released since; the client state carries these live
  pointers. \<open>apply_call\<close> is \<open>None\<close> when the argument is not valid, when the call does
  not return, or when it ends in an error.
\<close>

datatype call = Init addr "64 word" | Malloc "64 word" | Free addr | Realloc addr "64 word"

definition valid_region :: "addr \<Rightarrow> 64 word \<Rightarrow> bool" where
  "valid_region heap_start heap_size \<longleftrightarrow>
     heap_start \<noteq> NULL \<and> unat heap_size mod 8 = 0
     \<and> unat heap_start + unat heap_size + 16 \<le> 2 ^ 64"

fun apply_call :: "64 word \<Rightarrow> heap \<times> addr list \<Rightarrow> call \<Rightarrow> (heap \<times> addr list) option" where
  "apply_call M (s, live) (Init heap_start heap_size) =
     (if valid_region heap_start heap_size then
        (case myinit s heap_start heap_size of
           (s', ok) \<Rightarrow> Some (s', if ok then [] else live))
      else None)"
| "apply_call M (s, live) (Malloc n) =
     (case mymalloc M s n of
        None \<Rightarrow> None
      | Some (s', p) \<Rightarrow> Some (s', if p = NULL then live else p # live))"
| "apply_call M (s, live) (Free p) =
     (if p = NULL \<or> p \<in> set live then Some (myfree s p, removeAll p live) else None)"
| "apply_call M (s, live) (Realloc p n) =
     (if p = NULL \<or> p \<in> set live then
        (case myrealloc M s p n of
           None \<Rightarrow> None
         | Some (Inl e) \<Rightarrow> None
         | Some (Inr (s', q)) \<Rightarrow>
             Some (s', if q = NULL then removeAll p live else q # removeAll p live))
      else None)"

fun run :: "64 word \<Rightarrow> heap \<times> addr list \<Rightarrow> call list \<Rightarrow> (heap \<times> addr list) option" where
  "run M c [] = Some c"
| "run M c (x # xs) = (case apply_call M c x of None \<Rightarrow> None | Some c' \<Rightarrow> run M c' xs)"

text \<open>A process image before the first call: globals and memory are zero.\<close>

definition boot :: heap where
  "boot = \<lparr>mem = (\<lambda>_. 0), segment_start = NULL, segment_size = 0, heap_end = NULL,
            freelist_start = NULL\<rparr>"


section \<open>Word arithmetic of headers and sizes\<close>

lemma and_7_take_bit: "(v::64 word) AND 7 = take_bit 3 v"
  by (simp add: take_bit_eq_mask mask_eq_exp_minus_1)

lemma unat_and_7: "unat ((v::64 word) AND 7) = unat v mod 8"
  by (simp add: and_7_take_bit take_bit_eq_mod unat_mod)

lemma and_m8_decomp: "((v::64 word) AND - 8) + (v AND 7) = v"
proof -
  have "(v AND NOT (mask 3)) + (v AND mask 3) = (v AND NOT (mask 3)) OR (v AND mask 3)"
    by (rule disjunctive_add_eq_or) (simp add: bit_eq_iff bit_simps)
  also have "\<dots> = v"
    by (auto simp add: bit_eq_iff bit_simps)
  finally show ?thesis by (simp add: mask_eq_exp_minus_1)
qed

lemma unat_and_m8: "unat ((v::64 word) AND - 8) = unat v - unat v mod 8"
proof -
  have "v AND 7 \<le> v" by (rule word_and_le2)
  moreover have "v AND - 8 = v - (v AND 7)"
    using and_m8_decomp[of v] by (simp add: algebra_simps)
  ultimately show ?thesis by (simp add: unat_sub unat_and_7)
qed

lemma roundup_implicit_unat:
  assumes "unat sz \<le> 2 ^ 64 - 8"
  shows "unat (roundup_implicit sz 8) = (unat sz + 7) div 8 * 8"
proof -
  have "unat (sz + 8 - 1) = unat sz + 7"
    using assms by (simp add: unat_word_ariths)
  then show ?thesis
    unfolding roundup_implicit_def
    by (simp add: unat_and_m8 minus_mod_eq_div_mult) 
qed

lemma roundup_unat:
  assumes "unat sz \<le> 2 ^ 64 - 8"
  shows "unat (roundup sz 8) = max 16 ((unat sz + 7) div 8 * 8)"
proof -
  have "roundup sz 8 = (if roundup_implicit sz 8 < 16 then 16 else roundup_implicit sz 8)"
    by (simp add: roundup_def roundup_implicit_def)
  then show ?thesis
    using roundup_implicit_unat[OF assms] by (simp add: word_less_nat_alt max_def)
qed

text \<open>
  Claim C9 (amended). For every requested size \<open>sz \<le> 2\<^sup>6\<^sup>4 - 8\<close>, \<open>roundup(sz, 8)\<close> of
  explicit.c is the smallest multiple of 8 that is at least \<open>sz\<close> and at least 16, and
  \<open>roundup(sz, 8)\<close> of implicit.c is the smallest multiple of 8 that is at least \<open>sz\<close>,
  without a floor.
\<close>

theorem roundup_smallest_multiple:
  assumes "unat sz \<le> 2 ^ 64 - 8"
  shows "8 dvd unat (roundup sz 8) \<and> unat sz \<le> unat (roundup sz 8) \<and> 16 \<le> unat (roundup sz 8)
         \<and> (\<forall>k. 8 dvd k \<and> unat sz \<le> k \<and> 16 \<le> k \<longrightarrow> unat (roundup sz 8) \<le> k)
         \<and> 8 dvd unat (roundup_implicit sz 8) \<and> unat sz \<le> unat (roundup_implicit sz 8)
         \<and> (\<forall>k. 8 dvd k \<and> unat sz \<le> k \<longrightarrow> unat (roundup_implicit sz 8) \<le> k)"
proof -
  let ?r = "(unat sz + 7) div 8 * 8"
  have r: "8 dvd ?r" "unat sz \<le> ?r" by auto
  have least: "?r \<le> k" if "8 dvd k" "unat sz \<le> k" for k
    using that by (auto elim!: dvdE)
  show ?thesis
    unfolding roundup_unat[OF assms] roundup_implicit_unat[OF assms]
    using r least by (auto simp: max_def)
qed

theorem roundup_smallest_multiple_witness:
  "unat (10 :: 64 word) \<le> 2 ^ 64 - 8 \<and> unat (roundup 10 8) = 16 \<and> unat (roundup_implicit 10 8) = 16
   \<and> unat (roundup 33 8) = 40 \<and> unat (roundup_implicit 33 8) = 40"
  using roundup_smallest_multiple[of 10] roundup_smallest_multiple[of 33]
  by (simp add: roundup_def roundup_implicit_def)

text \<open>
  The implicit variant has no floor of 16 bytes: it rounds 1 up to 8. (Beyond
  \<open>2\<^sup>6\<^sup>4 - 8\<close> the sum \<open>sz + mult - 1\<close> wraps around.)
\<close>

theorem roundup_floor_counterexample:
  "roundup_implicit 1 8 = 8 \<and> \<not> (16 \<le> roundup_implicit 1 8)
   \<and> roundup 0xFFFFFFFFFFFFFFFF 8 = 16 \<and> \<not> (0xFFFFFFFFFFFFFFFF \<le> roundup 0xFFFFFFFFFFFFFFFF 8)"
  by (simp add: roundup_def roundup_implicit_def)


section \<open>Memory\<close>

lemma byte_bit: "bit (push_bit j (ucast (ucast (drop_bit j (v::64 word)) :: 8 word) :: 64 word)) n
   \<longleftrightarrow> j \<le> n \<and> n < j + 8 \<and> bit v n"
  by (auto simp: bit_simps dest: bit_imp_le_length)

lemma byte_bit0: "bit (ucast (ucast (v::64 word) :: 8 word) :: 64 word) n
   \<longleftrightarrow> n < 8 \<and> bit v n"
  by (auto simp: bit_simps dest: bit_imp_le_length)

lemma load64_store64_same: "load64 (store64 m a v) a = v"
  unfolding load64_def store64_def
  apply simp
  apply (rule bit_word_eqI)
  apply (simp only: bit_or_iff byte_bit byte_bit0)
  apply simp
  apply arith
  done

lemma store64_other: "8 \<le> x - a \<Longrightarrow> store64 m a v x = m x"
  by (simp add: store64_def leD)

lemma load64_cong:
  assumes "\<And>k. k < 8 \<Longrightarrow> m' (b + k) = m (b + k)"
  shows "load64 m' b = load64 m b"
  using assms[of 0] assms[of 1] assms[of 2] assms[of 3] assms[of 4] assms[of 5] assms[of 6] assms[of 7]
  by (simp add: load64_def)

lemma far_offset:
  fixes a b k :: "64 word"
  assumes "8 \<le> b - a" "8 \<le> a - b" "k < 8"
  shows "8 \<le> b + k - a"
proof -
  define A where "A = unat a"
  define B where "B = unat b"
  define K where "K = unat k"
  have bnd: "A < 2 ^ 64" "B < 2 ^ 64" 
    unfolding A_def B_def using unsigned_less[of a] unsigned_less[of b] by simp_all
  have K: "K < 8" using assms(3) by (simp add: K_def word_less_nat_alt)
  have ba: "unat (b - a) = (if A \<le> B then B - A else B + 2 ^ 64 - A)"
    by (simp add: unat_sub_if' A_def B_def)
  have ab: "unat (a - b) = (if B \<le> A then A - B else A + 2 ^ 64 - B)"
    by (simp add: unat_sub_if' A_def B_def)
  have 1: "8 \<le> unat (b - a)" "8 \<le> unat (a - b)"
    using assms by (simp_all add: word_le_nat_alt)
  have "unat (b - a) + K < 2 ^ 64"
    using 1 K bnd unfolding ba ab by (simp split: if_splits)
  then have "unat ((b - a) + k) = unat (b - a) + K"
    unfolding K_def by (simp add: unat_add_lem[THEN iffD1])
  with 1 have "unat (8 :: 64 word) \<le> unat ((b - a) + k)" by simp
  then have "8 \<le> (b - a) + k" by (simp only: word_le_nat_alt)
  moreover have "b + k - a = (b - a) + k" by simp
  ultimately show ?thesis by (simp only:)
qed

lemma load64_store64_other:
  assumes "8 \<le> b - a" "8 \<le> a - b"
  shows "load64 (store64 m a v) b = load64 m b"
  by (rule load64_cong) (simp add: store64_other far_offset[OF assms])

lemma load64_zero: "load64 (\<lambda>_. 0) a = 0"
  by (simp add: load64_def)

lemma word_dist:
  fixes a b :: "64 word"
  assumes "unat a + 8 \<le> unat b" "unat b + 8 \<le> 2 ^ 64"
  shows "8 \<le> b - a" "8 \<le> a - b"
proof -
  show "8 \<le> b - a" using assms by (simp add: word_le_nat_alt unat_sub_if')
  show "8 \<le> a - b" using assms by (simp add: word_le_nat_alt unat_sub_if')
qed

lemma load64_store64_disj:
  assumes "unat a + 8 \<le> unat b \<or> unat b + 8 \<le> unat a"
    and "unat a + 8 \<le> 2 ^ 64" "unat b + 8 \<le> 2 ^ 64"
  shows "load64 (store64 m a v) b = load64 m b"
  using assms word_dist[of a b] word_dist[of b a] by (auto intro: load64_store64_other)

lemma store64_byte_disj:
  assumes "unat x < unat a \<or> unat a + 8 \<le> unat x" "unat a + 8 \<le> 2 ^ 64"
  shows "store64 m a v x = m x"
proof -
  have "8 \<le> x - a" using assms by (auto simp add: word_le_nat_alt unat_sub_if')
  then show ?thesis by (rule store64_other)
qed

lemma fits_unat: "fits x \<Longrightarrow> unat (x + 8) = unat x + 8 \<and> unat (x + 16) = unat x + 16"
  unfolding fits_def by (simp add: unat_word_ariths)

lemma far_sym: "far x y \<Longrightarrow> far y x"
  by (auto simp: far_def)

lemma far_neq: "far x y \<Longrightarrow> x \<noteq> y"
  by (auto simp: far_def)

lemma fields_far:
  assumes "far x y" "fits x" "fits y"
  shows "payload_of (store64 m y v) x = payload_of m x"
    and "payload_of (store64 m (y + 8) v) x = payload_of m x"
    and "payload_of (store64 m (y + 16) v) x = payload_of m x"
    and "prev_of (store64 m y v) x = prev_of m x"
    and "prev_of (store64 m (y + 8) v) x = prev_of m x"
    and "prev_of (store64 m (y + 16) v) x = prev_of m x"
    and "next_of (store64 m y v) x = next_of m x"
    and "next_of (store64 m (y + 8) v) x = next_of m x"
    and "next_of (store64 m (y + 16) v) x = next_of m x"
  using assms fits_unat[of x] fits_unat[of y]
  unfolding payload_of_def prev_of_def next_of_def far_def fits_def
  by (auto intro!: load64_store64_disj)

lemma fields_same:
  assumes "fits x"
  shows "payload_of (store64 m x v) x = v"
    and "payload_of (store64 m (x + 8) v) x = payload_of m x"
    and "payload_of (store64 m (x + 16) v) x = payload_of m x"
    and "prev_of (store64 m x v) x = prev_of m x"
    and "prev_of (store64 m (x + 8) v) x = v"
    and "prev_of (store64 m (x + 16) v) x = prev_of m x"
    and "next_of (store64 m x v) x = next_of m x"
    and "next_of (store64 m (x + 8) v) x = next_of m x"
    and "next_of (store64 m (x + 16) v) x = v"
  using assms fits_unat[of x]
  unfolding payload_of_def prev_of_def next_of_def fits_def
  by (auto intro!: load64_store64_disj simp: load64_store64_same)

section \<open>Header words\<close>

lemma and_m8_eq: "(v::64 word) AND - 8 = v - (v AND 7)"
  using and_m8_decomp[of v] by (simp add: algebra_simps)

lemma and_7_add: 
  assumes "(d::64 word) AND 7 = 0" 
  shows "(v + d) AND 7 = v AND 7"
proof -
  have d: "unat d mod 8 = 0" using assms unat_and_7[of d] by simp
  have "(8::nat) dvd 2 ^ 64" by simp
  then have "unat (v + d) mod 8 = (unat v + unat d) mod 8"
    unfolding unat_word_ariths by (simp add: mod_mod_cancel)
  also have "\<dots> = unat v mod 8" using d by (simp add: mod_add_right_eq[symmetric])
  finally have "unat ((v + d) AND 7) = unat (v AND 7)" by (simp only: unat_and_7)
  then show ?thesis by (simp only: word_unat_eq_iff)
qed

lemma and_m8_add: "(d::64 word) AND 7 = 0 \<Longrightarrow> (v + d) AND - 8 = (v AND - 8) + d"
  by (simp add: and_m8_eq and_7_add)

lemma and_7_m8: "((v::64 word) AND - 8) AND 7 = 0"
proof -
  have "unat ((v AND - 8) AND 7) = 0"
    unfolding unat_and_7 unat_and_m8 by (simp add: mod_eq_0_iff_dvd dvd_minus_mod)
  then show ?thesis by (simp add: unat_eq_0)
qed

lemma and_m8_idem: "((v::64 word) AND - 8) AND - 8 = v AND - 8"
  by (subst and_m8_eq) (simp only: and_7_m8 diff_zero)

lemma hdr_mark_used:
  assumes "(v::64 word) AND 7 = 0"
  shows "(v + 1) AND 7 = 1" "(v + 1) AND - 8 = v"
proof -
  have "(1 + v) AND 7 = 1 AND 7" using assms by (rule and_7_add)
  then show 1: "(v + 1) AND 7 = 1" by (simp add: add.commute)
  show "(v + 1) AND - 8 = v" using 1 by (simp add: and_m8_eq)
qed

lemma hdr_mark_free:
  assumes "(v::64 word) AND 7 = 1"
  shows "(v - 1) AND 7 = 0" "(v - 1) AND - 8 = v AND - 8"
proof -
  have "v = (v AND - 8) + 1" using and_m8_decomp[of v] assms by simp
  then have e: "v - 1 = v AND - 8" by (simp add: algebra_simps)
  show "(v - 1) AND 7 = 0" unfolding e by (rule and_7_m8)
  show "(v - 1) AND - 8 = v AND - 8" unfolding e by (rule and_m8_idem)
qed

lemma flag_cases: "unat ((v::64 word) AND 7) \<le> 1 \<longleftrightarrow> v AND 7 = 0 \<or> v AND 7 = 1"
proof -
  have "unat (v AND 7) \<le> 1 \<longleftrightarrow> unat (v AND 7) = unat (0::64 word) \<or> unat (v AND 7) = unat (1::64 word)"
    by auto
  then show ?thesis by (simp only: word_unat_eq_iff) 
qed

lemma aligned_iff: "(v::64 word) AND 7 = 0 \<longleftrightarrow> unat v mod 8 = 0"
proof -
  have "v AND 7 = 0 \<longleftrightarrow> unat (v AND 7) = 0" by (simp add: unat_eq_0)
  then show ?thesis by (simp only: unat_and_7)
qed

lemma roundup_aligned: "roundup n 8 AND 7 = 0"
  by (simp add: roundup_def Let_def and_7_m8)

lemma roundup_ge_16: "16 \<le> roundup n 8"
  by (simp add: roundup_def Let_def not_less)

section \<open>Blocks\<close>

lemma get_payload_alt: "get_payload m b = payload_of m b AND - 8"
  by (simp add: get_payload_def PAYLOAD_MASK_def)

lemma check_free_alt: "check_free m b \<longleftrightarrow> b \<noteq> NULL \<and> payload_of m b AND 7 = 0"
  by (simp add: check_free_def FREE_MASK_def)

lemma get_payload_cong: "payload_of m' b = payload_of m b \<Longrightarrow> get_payload m' b = get_payload m b"
  by (simp add: get_payload_def)

lemma check_free_cong: "payload_of m' b = payload_of m b \<Longrightarrow> check_free m' b = check_free m b"
  by (simp add: check_free_def)

lemma unat_next:
  assumes "unat a + 8 + unat (p::64 word) \<le> unat (e::64 word)"
  shows "unat (a + p + ALIGNMENT) = unat a + unat p + 8"
proof -
  have "unat e < 2 ^ 64" using unsigned_less[of e] by simp
  with assms have "unat a + unat p + 8 < 2 ^ 64" by simp
  then show ?thesis
    by (simp add: ALIGNMENT_def unat_word_ariths)
qed

lemma blocks_le: "blocks m a e bs \<Longrightarrow> unat a \<le> unat e"
  by (cases bs) auto

lemma blocks_bounds:
  "blocks m a e bs \<Longrightarrow> x \<in> set bs \<Longrightarrow>
     unat a \<le> unat x \<and> unat x + 8 + unat (get_payload m x) \<le> unat e
     \<and> 16 \<le> unat (get_payload m x) \<and> unat (payload_of m x AND FREE_MASK) \<le> 1"
proof (induction bs arbitrary: a)
  case Nil
  then show ?case by simp
next
  case (Cons b bs)
  show ?case
  proof (cases "x = b")
    case True
    with Cons.prems show ?thesis by simp
  next
    case False
    with Cons.prems have x: "x \<in> set bs" by simp
    from Cons.prems have t: "blocks m (a + get_payload m a + ALIGNMENT) e bs"
      and le: "unat a + 8 + unat (get_payload m a) \<le> unat e" by simp_all
    from Cons.IH[OF t x] unat_next[OF le] show ?thesis by simp
  qed
qed

lemma blocks_after:
  "blocks m a e (b # bs) \<Longrightarrow> x \<in> set bs \<Longrightarrow> unat b + 8 + unat (get_payload m b) \<le> unat x"
proof -
  assume a: "blocks m a e (b # bs)" and x: "x \<in> set bs"
  then have t: "blocks m (a + get_payload m a + ALIGNMENT) e bs"
    and le: "unat a + 8 + unat (get_payload m a) \<le> unat e" and "b = a" by simp_all
  from blocks_bounds[OF t x] unat_next[OF le] \<open>b = a\<close> show ?thesis by simp
qed

lemma blocks_extent_disj:
  "blocks m a e bs \<Longrightarrow> x \<in> set bs \<Longrightarrow> y \<in> set bs \<Longrightarrow> x \<noteq> y \<Longrightarrow>
     unat x + 8 + unat (get_payload m x) \<le> unat y \<or> unat y + 8 + unat (get_payload m y) \<le> unat x"
proof (induction bs arbitrary: a)
  case Nil
  then show ?case by simp
next
  case (Cons b bs)
  from Cons.prems(1) have t: "blocks m (a + get_payload m a + ALIGNMENT) e bs" by simp
  consider "x = b" "y \<in> set bs" | "y = b" "x \<in> set bs" | "x \<in> set bs" "y \<in> set bs"
    using Cons.prems by auto
  then show ?case
  proof cases
    case 1
    then show ?thesis using blocks_after[OF Cons.prems(1)] by simp
  next
    case 2
    then show ?thesis using blocks_after[OF Cons.prems(1)] by simp
  next
    case 3
    then show ?thesis using Cons.IH[OF t] Cons.prems(4) by simp
  qed
qed

lemma blocks_distinct: "blocks m a e bs \<Longrightarrow> distinct bs"
proof (induction bs arbitrary: a)
  case Nil
  then show ?case by simp
next
  case (Cons b bs)
  from Cons.prems have t: "blocks m (a + get_payload m a + ALIGNMENT) e bs" by simp
  have "b \<notin> set bs" using blocks_after[OF Cons.prems] by fastforce
  with Cons.IH[OF t] show ?case by simp
qed

lemma blocks_fits:
  assumes "blocks m a e bs" "x \<in> set bs"
  shows "fits x"
proof -
  have "unat e < 2 ^ 64" using unsigned_less[of e] by simp
  with blocks_bounds[OF assms] show ?thesis by (simp add: fits_def)
qed

lemma blocks_far:
  assumes "blocks m a e bs" "x \<in> set bs" "y \<in> set bs" "x \<noteq> y"
  shows "far x y"
  using blocks_extent_disj[OF assms] blocks_bounds[OF assms(1,2)] blocks_bounds[OF assms(1,3)]
  by (auto simp: far_def)

lemma blocks_frame:
  "blocks m a e bs \<Longrightarrow> (\<forall>b\<in>set bs. payload_of m' b = payload_of m b) \<Longrightarrow> blocks m' a e bs"
  by (induction bs arbitrary: a) (simp_all add: get_payload_def)

lemma blocks_walk: "blocks m a e bs \<Longrightarrow> walk m a e bs"
  by (induction bs arbitrary: a) (simp_all add: get_payload_def payload_of_def)

lemma walk_sum:
  "walk m a e bs \<Longrightarrow> unat a + (\<Sum>b\<leftarrow>bs. unat (load64 m b AND PAYLOAD_MASK) + 8) = unat e"
proof (induction bs arbitrary: a)
  case Nil
  then show ?case by simp
next
  case (Cons b bs)
  then have t: "walk m (a + (load64 m a AND PAYLOAD_MASK) + ALIGNMENT) e bs"
    and le: "unat a + 8 + unat (load64 m a AND PAYLOAD_MASK) \<le> unat e" and "b = a" by simp_all
  from Cons.IH[OF t] unat_next[OF le] \<open>b = a\<close> show ?case by simp
qed

lemma blocks_next_in:
  "blocks m a e bs \<Longrightarrow> b \<in> set bs \<Longrightarrow> b + get_payload m b + ALIGNMENT \<noteq> e
     \<Longrightarrow> b + get_payload m b + ALIGNMENT \<in> set bs"
proof (induction bs arbitrary: a)
  case Nil
  then show ?case by simp
next
  case (Cons x xs)
  then show ?case by (cases xs) auto
qed

lemma blocks_last:
  "blocks m a e bs \<Longrightarrow> b \<in> set bs \<Longrightarrow> b + get_payload m b + ALIGNMENT = e \<longleftrightarrow> b = last bs"
proof (induction bs arbitrary: a)
  case Nil
  then show ?case by simp
next
  case (Cons x xs)
  show ?case
  proof (cases xs)
    case Nil
    with Cons.prems show ?thesis by simp
  next
    case (Cons y ys)
    from Cons.prems(1) have t: "blocks m (a + get_payload m a + ALIGNMENT) e xs"
      and le: "unat a + 8 + unat (get_payload m a) \<le> unat e" and xa: "x = a" by simp_all
    have y: "y \<in> set xs" using Cons by simp
    have "unat (a + get_payload m a + ALIGNMENT) + 24 \<le> unat e"
      using blocks_bounds[OF t y] Cons t by simp
    then have ne: "a + get_payload m a + ALIGNMENT \<noteq> e" by auto
    show ?thesis
    proof (cases "b = x")
      case True
      have "x \<noteq> last xs" using blocks_distinct[OF Cons.prems(1)] Cons last_in_set[of xs]
        by auto
      then show ?thesis using True ne xa Cons by simp
    next
      case False
      then have "b \<in> set xs" using Cons.prems by simp
      from Cons.IH[OF t this] show ?thesis using Cons by simp
    qed
  qed
qed

lemma blocks_merge:
  assumes "blocks m a e bs" "b \<in> set bs"
    and n: "n = b + get_payload m b + ALIGNMENT" "n \<noteq> e"
    and hb: "payload_of m' b = payload_of m b + (get_payload m n + ALIGNMENT)"
    and frame: "\<forall>y\<in>set bs. y \<noteq> b \<longrightarrow> payload_of m' y = payload_of m y"
  shows "blocks m' a e (remove1 n bs)"
  using assms(1,2) frame
proof (induction bs arbitrary: a)
  case Nil
  then show ?case by simp
next
  case (Cons x xs)
  from Cons.prems(1) have t: "blocks m (a + get_payload m a + ALIGNMENT) e xs"
    and le: "unat a + 8 + unat (get_payload m a) \<le> unat e" and xa: "x = a"
    and ok: "16 \<le> unat (get_payload m a)" "unat (payload_of m a AND FREE_MASK) \<le> 1"
    by simp_all
  show ?case
  proof (cases "x = b")
    case True
    have ab: "a = b" using True xa by simp
    have t': "blocks m n e xs" using t unfolding n(1) ab .
    obtain xs' where xs: "xs = n # xs'" using t' n(2) by (cases xs) auto
    have tn: "blocks m (n + get_payload m n + ALIGNMENT) e xs'"
      and len: "unat n + 8 + unat (get_payload m n) \<le> unat e"
      using t' unfolding xs by simp_all
    have un: "unat n = unat b + unat (get_payload m b) + 8"
      using unat_next[OF le] unfolding n(1) ab by simp
    then have bn: "b \<noteq> n" by auto
    have al: "(get_payload m n + ALIGNMENT) AND 7 = 0"
      by (simp add: get_payload_alt ALIGNMENT_def and_7_add[of 8, simplified] and_7_m8)
    have gp: "get_payload m' b = get_payload m b + (get_payload m n + ALIGNMENT)"
      using and_m8_add[OF al] by (simp add: get_payload_alt hb)
    have fl: "payload_of m' b AND FREE_MASK = payload_of m b AND FREE_MASK"
      using and_7_add[OF al] by (simp add: hb FREE_MASK_def)
    have ugp: "unat (get_payload m' b) = unat (get_payload m b) + unat (get_payload m n) + 8"
    proof -
      have "unat e < 2 ^ 64" using unsigned_less[of e] by simp
      then have "unat (get_payload m b) + unat (get_payload m n) + 8 < 2 ^ 64"
        using len un by simp
      then show ?thesis unfolding gp by (simp add: unat_word_ariths ALIGNMENT_def)
    qed
    have nx: "b + get_payload m' b + ALIGNMENT = n + get_payload m n + ALIGNMENT"
      unfolding gp n by (simp add: algebra_simps)
    have "\<forall>y\<in>set xs'. y \<noteq> b"
      using blocks_after[OF Cons.prems(1)] xs True by fastforce
    then have "\<forall>y\<in>set xs'. payload_of m' y = payload_of m y"
      using Cons.prems(3) xs by simp
    from blocks_frame[OF tn this] have "blocks m' (b + get_payload m' b + ALIGNMENT) e xs'"
      by (simp only: nx)
    then have "blocks m' a e (b # xs')"
      using ok le len un ugp fl True xa by simp
    then show ?thesis using True xs bn by simp
  next
    case False
    then have b: "b \<in> set xs" using Cons.prems by simp
    have hx: "payload_of m' x = payload_of m x" using Cons.prems(3) False by simp
    have "unat x < unat b" using blocks_after[OF Cons.prems(1) b] by simp
    moreover have "unat b < unat n" using unat_next[of b "get_payload m b" e]
        blocks_bounds[OF t b] n by simp
    ultimately have xn: "x \<noteq> n" by auto
    have "\<forall>y\<in>set xs. y \<noteq> b \<longrightarrow> payload_of m' y = payload_of m y"
      using Cons.prems(3) by simp
    from Cons.IH[OF t b this] have "blocks m' (a + get_payload m a + ALIGNMENT) e (remove1 n xs)" .
    then show ?thesis using xn ok le xa hx by (simp add: get_payload_def)
  qed
qed

lemma blocks_split:
  assumes "blocks m a e bs" "b \<in> set bs"
    and new: "new = b + r + ALIGNMENT"
    and r: "16 \<le> unat r" "unat r + 24 \<le> unat (get_payload m b)"
    and hb: "get_payload m' b = r" "unat (payload_of m' b AND FREE_MASK) \<le> 1"
    and hn: "payload_of m' new = get_payload m b - r - ALIGNMENT" "r AND 7 = 0"
    and frame: "\<forall>y\<in>set bs. y \<noteq> b \<longrightarrow> payload_of m' y = payload_of m y"
  shows "blocks m' a e (insert_after b new bs)"
  using assms(1,2) frame
proof (induction bs arbitrary: a)
  case Nil
  then show ?case by simp
next
  case (Cons x xs)
  from Cons.prems(1) have t: "blocks m (a + get_payload m a + ALIGNMENT) e xs"
    and le: "unat a + 8 + unat (get_payload m a) \<le> unat e" and xa: "x = a"
    and ok: "16 \<le> unat (get_payload m a)" "unat (payload_of m a AND FREE_MASK) \<le> 1"
    by simp_all
  show ?case
  proof (cases "x = b")
    case True
    let ?P = "get_payload m b"
    have rle: "r \<le> ?P" "8 \<le> ?P - r" using r by (simp_all add: word_le_nat_alt unat_sub)
    have ud: "unat (?P - r - ALIGNMENT) = unat ?P - unat r - 8"
      using r rle by (simp add: unat_sub ALIGNMENT_def word_le_nat_alt)
    have al: "(?P - r - ALIGNMENT) AND 7 = 0"
    proof -
      have "unat ?P mod 8 = 0" using and_7_m8[of "payload_of m b"]
        by (simp add: get_payload_alt aligned_iff)
      moreover have "unat r mod 8 = 0" using hn(2) by (simp add: aligned_iff)
      ultimately have "(unat ?P - unat r - 8) mod 8 = 0" using r(2)
        by presburger
      then show ?thesis by (simp add: aligned_iff ud)
    qed
    have gn: "get_payload m' new = ?P - r - ALIGNMENT"
      using al by (simp add: get_payload_alt hn(1) and_m8_eq)
    have fn: "payload_of m' new AND FREE_MASK = 0"
      using al by (simp add: hn(1) FREE_MASK_def)
    have unew: "unat new = unat b + unat r + 8"
      unfolding new using unat_next[of b r e] le r True xa by simp
    have "new + (?P - r - ALIGNMENT) + ALIGNMENT = b + ?P + ALIGNMENT"
      by (simp add: new)
    then have nx: "new + get_payload m' new + ALIGNMENT = b + ?P + ALIGNMENT"
      by (simp only: gn)
    have "\<forall>y\<in>set xs. y \<noteq> b"
      using blocks_after[OF Cons.prems(1)] True by fastforce
    then have "\<forall>y\<in>set xs. payload_of m' y = payload_of m y"
      using Cons.prems(3) by simp
    from blocks_frame[OF t this] True xa
    have "blocks m' (new + get_payload m' new + ALIGNMENT) e xs" by (simp only: nx)
    then have "blocks m' new e (new # xs)"
      using gn ud fn unew r le True xa by simp
    then have "blocks m' b e (b # new # xs)"
      using hb r le True xa new by simp
    then show ?thesis using True xa by simp
  next
    case False
    then have b: "b \<in> set xs" using Cons.prems by simp
    have hx: "payload_of m' x = payload_of m x" using Cons.prems(3) False by simp
    have "\<forall>y\<in>set xs. y \<noteq> b \<longrightarrow> payload_of m' y = payload_of m y"
      using Cons.prems(3) by simp
    from Cons.IH[OF t b this] show ?thesis using False ok le xa hx by (simp add: get_payload_def)
  qed
qed

lemma sep_subset: "sep X \<Longrightarrow> Y \<subseteq> X \<Longrightarrow> sep Y"
  unfolding sep_def by blast

lemma sepD: "sep X \<Longrightarrow> x \<in> X \<Longrightarrow> fits x"
  "sep X \<Longrightarrow> x \<in> X \<Longrightarrow> y \<in> X \<Longrightarrow> x \<noteq> y \<Longrightarrow> far x y"
  unfolding sep_def by blast+

lemma blocks_sep: "blocks m a e bs \<Longrightarrow> sep (set bs)"
  unfolding sep_def using blocks_fits blocks_far by blast

section \<open>Free list\<close>

lemma dll_frame:
  "dll m p h fl \<Longrightarrow> (\<forall>x\<in>set fl. prev_of m' x = prev_of m x \<and> next_of m' x = next_of m x)
     \<Longrightarrow> dll m' p h fl"
  by (induction fl arbitrary: p h) simp_all

lemma dll_not_null: "dll m p h fl \<Longrightarrow> NULL \<notin> set fl"
  by (induction fl arbitrary: p h) auto

lemma dll_head: "dll m p h fl \<Longrightarrow> (fl = [] \<longleftrightarrow> h = NULL) \<and> (fl \<noteq> [] \<longrightarrow> hd fl = h)"
  by (cases fl) auto

lemma dll_next_in:
  "dll m p h fl \<Longrightarrow> x \<in> set fl \<Longrightarrow> next_of m x = NULL \<or> next_of m x \<in> set fl"
proof (induction fl arbitrary: p h)
  case Nil
  then show ?case by simp
next
  case (Cons a as)
  then show ?case by (cases as) auto
qed

lemma dll_prev_in:
  "dll m p h fl \<Longrightarrow> x \<in> set fl \<Longrightarrow> x \<noteq> h \<Longrightarrow> prev_of m x \<in> set fl"
proof (induction fl arbitrary: p h)
  case Nil
  then show ?case by simp
next
  case (Cons a as)
  then show ?case by (cases as) auto
qed

lemma dll_prev_head: "dll m p h fl \<Longrightarrow> x \<in> set fl \<Longrightarrow> x = h \<Longrightarrow> prev_of m x = p"
  by (cases fl) auto

lemma dll_symmetric:
  "dll m p h fl \<Longrightarrow> x \<in> set fl \<Longrightarrow> next_of m x \<noteq> NULL \<Longrightarrow> prev_of m (next_of m x) = x"
proof (induction fl arbitrary: p h)
  case Nil
  then show ?case by simp
next
  case (Cons a as)
  then show ?case by (cases as) auto
qed

lemma dll_follow: "dll m p h fl \<Longrightarrow> length fl \<le> k \<Longrightarrow> follow m h k = Some fl"
proof (induction fl arbitrary: p h k)
  case Nil
  then show ?case by (cases k) simp_all
next
  case (Cons a as)
  then obtain k' where k: "k = Suc k'" by (cases k) auto
  from Cons.prems have d: "dll m a (next_of m a) as" and "h = a" "a \<noteq> NULL" by simp_all
  moreover have "length as \<le> k'" using Cons.prems k by simp
  ultimately show ?case using Cons.IH[OF d, of k'] k by simp
qed

lemma dll_search:
  "dll m p h fl \<Longrightarrow>
     search_from m r h =
       Some (case find (\<lambda>x. check_free m x \<and> r \<le> get_payload m x) fl of
               None \<Rightarrow> NULL | Some x \<Rightarrow> x)"
proof (induction fl arbitrary: p h)
  case Nil
  then show ?case by (simp add: search_from.simps)
next
  case (Cons a as)
  then have "dll m a (next_of m a) as" and "h = a" "a \<noteq> NULL" by simp_all
  from Cons.IH[OF this(1)] this(2,3) show ?case
    by (subst search_from.simps) simp
qed

lemma payload_of_store_link:
  assumes "sep X" "y \<in> X" "b \<in> X"
  shows "payload_of (store64 m (y + 8) v) b = payload_of m b"
    and "payload_of (store64 m (y + 16) v) b = payload_of m b"
  using assms fields_far(2,3)[of b y] fields_same(2,3)[of b] sepD[OF assms(1)]
  by (cases "b = y"; simp)+

lemma dll_remove_head:
  assumes "dll m p x (x # y # ys)" "distinct (x # y # ys)" "sep (set (x # y # ys))"
  shows "dll (store64 m (y + 8) p) p y (y # ys)"
proof -
  have fy: "fits y" using sepD(1)[OF assms(3)] by simp
  have d: "dll m y (next_of m y) ys" and yn: "y \<noteq> NULL" "next_of m x = y" using assms(1) by simp_all
  have "\<forall>z\<in>set ys. prev_of (store64 m (y + 8) p) z = prev_of m z
          \<and> next_of (store64 m (y + 8) p) z = next_of m z"
  proof
    fix z assume z: "z \<in> set ys"
    then have "far z y" "fits z" using sepD[OF assms(3)] assms(2) by auto
    then show "prev_of (store64 m (y + 8) p) z = prev_of m z
          \<and> next_of (store64 m (y + 8) p) z = next_of m z"
      using fy by (simp add: fields_far)
  qed
  from dll_frame[OF d this] show ?thesis using yn fy by (simp add: fields_same)
qed

lemma dll_remove_interior:
  assumes "dll m p h fl" "distinct fl" "x \<in> set fl" "x \<noteq> h" "sep (set fl)"
  shows "prev_of m x \<in> set fl \<and>
         dll (store64 (if next_of m x \<noteq> NULL then store64 m (next_of m x + 8) (prev_of m x) else m)
                (prev_of m x + 16) (next_of m x)) p h (remove1 x fl)"
  using assms
proof (induction fl arbitrary: p h)
  case Nil
  then show ?case by simp
next
  case (Cons a as)
  let ?q = "prev_of m x" and ?n = "next_of m x"
  let ?m1 = "if ?n \<noteq> NULL then store64 m (?n + 8) ?q else m"
  let ?m2 = "store64 ?m1 (?q + 16) ?n"
  from Cons.prems have ha: "h = a" and an: "a \<noteq> NULL" and pa: "prev_of m a = p"
    and d: "dll m a (next_of m a) as" and xas: "x \<in> set as" and xa: "x \<noteq> a"
    and dis: "distinct as" "a \<notin> set as" by auto
  have sp: "sep (set as)" using sep_subset[OF Cons.prems(5)] by auto
  have fa: "fits a" using sepD(1)[OF Cons.prems(5)] by simp
  have far_a: "\<And>z. z \<in> set as \<Longrightarrow> far a z \<and> fits z"
    using sepD[OF Cons.prems(5)] dis by auto
  have nin: "?n = NULL \<or> ?n \<in> set as" using dll_next_in[OF d xas] .
  show ?case
  proof (cases "x = next_of m a")
    case True
    then obtain post where as: "as = x # post" using d xas by (cases as) auto
    have q: "?q = a" using d as by simp
    have dp: "dll m x ?n post" using d as by simp
    have fx: "fits x" "far a x" using far_a[OF xas] by simp_all
    have "dll ?m2 a ?n post"
    proof (cases post)
      case Nil
      then show ?thesis using dp by simp
    next
      case (Cons n' ps)
      then have n': "?n = n'" "n' \<noteq> NULL" and dn: "dll m n' (next_of m n') ps" using dp by simp_all
      have n'as: "n' \<in> set as" using as Cons by simp
      have fn: "fits n'" "far a n'" using far_a[OF n'as] by simp_all
      have "\<forall>z\<in>set ps. prev_of ?m2 z = prev_of m z \<and> next_of ?m2 z = next_of m z"
      proof
        fix z assume z: "z \<in> set ps"
        then have zas: "z \<in> set as" using as Cons by simp
        have "z \<noteq> n'" using dis(1) as Cons z by auto
        then have "far z n'" using sepD(2)[OF sp zas n'as] by simp
        moreover have "far z a" "fits z" using far_a[OF zas] far_sym by auto
        ultimately show "prev_of ?m2 z = prev_of m z \<and> next_of ?m2 z = next_of m z"
          using fa fn n' q by (simp add: fields_far)
      qed
      from dll_frame[OF dn this] have "dll ?m2 n' (next_of m n') ps" .
      moreover have "prev_of ?m2 n' = a" "next_of ?m2 n' = next_of m n'"
        using fa fn n' q far_sym[OF fn(2)] by (simp_all add: fields_far fields_same)
      ultimately show ?thesis using Cons n' by simp
    qed
    moreover have "prev_of ?m2 a = p"
      using nin far_a fa pa q by (auto simp: fields_far fields_same)
    moreover have "next_of ?m2 a = ?n"
      using fa q by (simp add: fields_same)
    ultimately have "dll ?m2 p a (a # post)" using an by simp
    then show ?thesis using q ha xa as by simp
  next
    case False
    from Cons.IH[OF d dis(1) xas False sp]
    have qin: "?q \<in> set as" and d2: "dll ?m2 a (next_of m a) (remove1 x as)" by simp_all
    have fq: "far a ?q" "fits ?q" using far_a[OF qin] by simp_all
    have "prev_of ?m2 a = p" "next_of ?m2 a = next_of m a"
      using nin far_a fa pa fq by (auto simp: fields_far fields_same)
    then have "dll ?m2 p a (a # remove1 x as)" using an d2 by simp
    then show ?thesis using qin ha xa by simp
  qed
qed

lemma wf_sep: "wf s bs fl \<Longrightarrow> sep (set bs) \<and> sep (set fl)"
  unfolding wf_def using blocks_sep sep_subset by blast

lemma blocks_not_null:
  assumes "region_ok s" "blocks (mem s) (segment_start s) (heap_end s) bs" "x \<in> set bs"
  shows "x \<noteq> NULL"
proof -
  have "unat (segment_start s) \<noteq> 0" using assms(1) by (simp add: region_ok_def unat_eq_0)
  with blocks_bounds[OF assms(2,3)] have "unat x \<noteq> 0" by simp
  then show ?thesis by auto
qed

lemma remove_freelist_globals:
  "segment_start (remove_freelist s x) = segment_start s"
  "segment_size (remove_freelist s x) = segment_size s"
  "heap_end (remove_freelist s x) = heap_end s"
  by (simp_all add: remove_freelist_def Let_def)

lemma remove_freelist_wf:
  assumes "wf s bs fl" "x \<in> set fl"
  shows "wf (remove_freelist s x) bs (remove1 x fl)"
    and "\<forall>y\<in>set bs. payload_of (mem (remove_freelist s x)) y = payload_of (mem s) y"
proof -
  let ?m = "mem s" and ?h = "freelist_start s"
  let ?q = "prev_of ?m x" and ?n = "next_of ?m x"
  from assms(1) have rok: "region_ok s" and bl: "blocks ?m (segment_start s) (heap_end s) bs"
    and d: "dll ?m NULL ?h fl" and dis: "distinct fl" and sub: "set fl \<subseteq> set bs"
    by (simp_all add: wf_def)
  from wf_sep[OF assms(1)] have sb: "sep (set bs)" and sf: "sep (set fl)" by simp_all
  have nin: "?n = NULL \<or> ?n \<in> set fl" using dll_next_in[OF d assms(2)] .
  have sub': "set (remove1 x fl) \<subseteq> set bs" using sub set_remove1_subset[of x fl] by blast
  have dis': "distinct (remove1 x fl)" using dis by simp
  have "wf (remove_freelist s x) bs (remove1 x fl)
        \<and> (\<forall>y\<in>set bs. payload_of (mem (remove_freelist s x)) y = payload_of (mem s) y)"
  proof (cases "?q = NULL")
    case True
    have xh: "x = ?h" using dll_prev_in[OF d assms(2)] dll_not_null[OF d] True by metis
    then obtain rest where fl: "fl = x # rest" using d assms(2) by (cases fl) auto
    have dr: "dll ?m x ?n rest" using d fl by simp
    show ?thesis
    proof (cases "?n = NULL")
      case n0: True
      then have "rest = []" using dll_head[OF dr] by simp
      have eq: "remove_freelist s x = s\<lparr>freelist_start := NULL\<rparr>"
        using True n0 by (simp add: remove_freelist_def Let_def)
      show ?thesis using \<open>rest = []\<close> rok bl sub' fl
        unfolding eq by (simp add: wf_def region_ok_def)
    next
      case n1: False
      then obtain y ys where rest: "rest = y # ys" using dll_head[OF dr] by (cases rest) auto
      then have y: "y = ?n" using dr by simp
      have yin: "y \<in> set bs" using sub fl rest by simp
      have "dll ?m NULL x (x # y # ys)" using d fl rest xh by simp
      from dll_remove_head[OF this] have d': "dll (store64 ?m (y + 8) NULL) NULL y (y # ys)"
        using dis sf fl rest by simp
      have hd: "\<forall>b\<in>set bs. payload_of (store64 ?m (y + 8) NULL) b = payload_of ?m b"
        using payload_of_store_link[OF sb yin] by simp
      have eq: "remove_freelist s x = s\<lparr>mem := store64 ?m (y + 8) NULL, freelist_start := y\<rparr>"
        using True n1 y by (simp add: remove_freelist_def Let_def)
      from blocks_frame[OF bl hd] d' hd show ?thesis using rok sub' dis' fl rest dis
        unfolding eq by (simp add: wf_def region_ok_def)
    qed
  next
    case False
    have xh: "x \<noteq> ?h" using dll_prev_head[OF d assms(2)] False by auto
    let ?m1 = "if ?n \<noteq> NULL then store64 ?m (?n + 8) ?q else ?m"
    let ?m2 = "store64 ?m1 (?q + 16) ?n"
    from dll_remove_interior[OF d dis assms(2) xh sf]
    have qin: "?q \<in> set fl" and d': "dll ?m2 NULL ?h (remove1 x fl)" by simp_all
    have qb: "?q \<in> set bs" using qin sub by blast
    have hd: "\<forall>b\<in>set bs. payload_of ?m2 b = payload_of ?m b"
    proof
      fix b assume b: "b \<in> set bs"
      have "payload_of ?m1 b = payload_of ?m b"
      proof (cases "?n = NULL")
        case True then show ?thesis by simp
      next
        case False
        then have "?n \<in> set bs" using nin sub by blast
        from payload_of_store_link(1)[OF sb this b] False show ?thesis by simp
      qed
      then show "payload_of ?m2 b = payload_of ?m b"
        using payload_of_store_link(2)[OF sb qb b] by simp
    qed
    have eq: "remove_freelist s x = s\<lparr>mem := ?m2\<rparr>"
      using False by (simp add: remove_freelist_def Let_def)
    from blocks_frame[OF bl hd] d' hd show ?thesis using rok sub' dis'
      unfolding eq by (simp add: wf_def region_ok_def)
  qed
  then show "wf (remove_freelist s x) bs (remove1 x fl)"
    and "\<forall>y\<in>set bs. payload_of (mem (remove_freelist s x)) y = payload_of (mem s) y"
    by simp_all
qed

lemma add_freelist_globals:
  "segment_start (add_freelist s x) = segment_start s"
  "segment_size (add_freelist s x) = segment_size s"
  "heap_end (add_freelist s x) = heap_end s"
  "freelist_start (add_freelist s x) = x"
  by (simp_all add: add_freelist_def Let_def)

lemma add_freelist_wf:
  assumes "wf s bs fl" "x \<in> set bs" "x \<notin> set fl"
  shows "wf (add_freelist s x) bs (x # fl)"
    and "\<forall>y\<in>set bs. payload_of (mem (add_freelist s x)) y = payload_of (mem s) y"
proof -
  let ?m = "mem s" and ?h = "freelist_start s"
  from assms(1) have rok: "region_ok s" and bl: "blocks ?m (segment_start s) (heap_end s) bs"
    and d: "dll ?m NULL ?h fl" and dis: "distinct fl" and sub: "set fl \<subseteq> set bs"
    by (simp_all add: wf_def)
  from wf_sep[OF assms(1)] have sb: "sep (set bs)" by simp
  have fx: "fits x" using sepD(1)[OF sb assms(2)] .
  have xn: "x \<noteq> NULL" using blocks_not_null[OF rok bl assms(2)] .
  have farx: "\<And>z. z \<in> set fl \<Longrightarrow> far z x \<and> fits z"
    using sepD[OF sb] sub assms(2,3) by blast
  have "wf (add_freelist s x) bs (x # fl)
        \<and> (\<forall>y\<in>set bs. payload_of (mem (add_freelist s x)) y = payload_of (mem s) y)"
  proof (cases "?h = NULL")
    case True
    then have fl: "fl = []" using dll_head[OF d] by simp
    let ?m' = "store64 (store64 ?m (x + 8) NULL) (x + 16) NULL"
    have hd: "\<forall>b\<in>set bs. payload_of ?m' b = payload_of ?m b"
      using payload_of_store_link[OF sb assms(2)] by simp
    have "dll ?m' NULL x [x]" using xn fx by (simp add: fields_same)
    moreover have eq: "add_freelist s x = s\<lparr>mem := ?m', freelist_start := x\<rparr>"
      using True by (simp add: add_freelist_def)
    ultimately show ?thesis using blocks_frame[OF bl hd] hd rok assms(2) fl
      unfolding eq by (simp add: wf_def region_ok_def)
  next
    case False
    then obtain rest where fl: "fl = ?h # rest" using dll_head[OF d] by (cases fl) auto
    have hin: "?h \<in> set bs" using sub fl by auto
    have fh: "far ?h x" "fits ?h" using farx[of ?h] fl by simp_all
    let ?m' = "store64 (store64 (store64 ?m (?h + 8) x) (x + 16) ?h) (x + 8) NULL"
    have hd: "\<forall>b\<in>set bs. payload_of ?m' b = payload_of ?m b"
      using payload_of_store_link[OF sb assms(2)] payload_of_store_link[OF sb hin] by simp
    have dr: "dll ?m ?h (next_of ?m ?h) rest" using d fl by (metis dll.simps(2))
    have "\<forall>z\<in>set rest. prev_of ?m' z = prev_of ?m z \<and> next_of ?m' z = next_of ?m z"
    proof
      fix z assume z: "z \<in> set rest"
      then have "z \<in> set fl" "z \<noteq> ?h" using fl dis by auto
      then have "far z x" "fits z" "far z ?h" using farx[of z] sepD(2)[OF sb, of z ?h] sub hin by auto
      then show "prev_of ?m' z = prev_of ?m z \<and> next_of ?m' z = next_of ?m z"
        using fx fh by (simp add: fields_far)
    qed
    from dll_frame[OF dr this] have "dll ?m' ?h (next_of ?m ?h) rest" .
    moreover have "prev_of ?m' ?h = x" "next_of ?m' ?h = next_of ?m ?h"
      using fx fh by (simp_all add: fields_far fields_same)
    moreover have "prev_of ?m' x = NULL" "next_of ?m' x = ?h"
      using fx fh far_sym[OF fh(1)] by (simp_all add: fields_far fields_same)
    ultimately have "dll ?m' NULL x (x # ?h # rest)" using xn False by simp
    then have "dll ?m' NULL x (x # fl)" using fl by simp
    moreover have eq: "add_freelist s x = s\<lparr>mem := ?m', freelist_start := x\<rparr>"
      using False by (simp add: add_freelist_def Let_def)
    ultimately show ?thesis using blocks_frame[OF bl hd] hd rok assms(2,3) sub dis
      unfolding eq by (simp add: wf_def region_ok_def)
  qed
  then show "wf (add_freelist s x) bs (x # fl)"
    and "\<forall>y\<in>set bs. payload_of (mem (add_freelist s x)) y = payload_of (mem s) y"
    by simp_all
qed

lemma blocks_frame_payload:
  "blocks m a e bs \<Longrightarrow>
     (\<forall>y\<in>set bs. get_payload m' y = get_payload m y \<and> unat (payload_of m' y AND FREE_MASK) \<le> 1)
     \<Longrightarrow> blocks m' a e bs"
  by (induction bs arbitrary: a) simp_all

lemma links_store_header:
  assumes "sep X" "b \<in> X" "z \<in> X"
  shows "prev_of (store64 m b v) z = prev_of m z" "next_of (store64 m b v) z = next_of m z"
  using assms fields_far(4,7)[of z b] fields_same(4,7)[of z] sepD[OF assms(1)]
  by (cases "z = b"; simp)+

lemma payload_of_store_header:
  assumes "sep X" "b \<in> X" "y \<in> X" "y \<noteq> b"
  shows "payload_of (store64 m b v) y = payload_of m y"
  using assms fields_far(1)[of y b] sepD[OF assms(1)] by simp

lemma wf_header_update:
  assumes "wf s bs fl" "b \<in> set bs"
    and "v AND - 8 = get_payload (mem s) b" "unat (v AND 7) \<le> 1"
  shows "wf (s\<lparr>mem := store64 (mem s) b v\<rparr>) bs fl"
proof -
  let ?m = "mem s" and ?m' = "store64 (mem s) b v"
  from assms(1) have rok: "region_ok s" and bl: "blocks ?m (segment_start s) (heap_end s) bs"
    and d: "dll ?m NULL (freelist_start s) fl" and dis: "distinct fl" and sub: "set fl \<subseteq> set bs"
    by (simp_all add: wf_def)
  from wf_sep[OF assms(1)] have sb: "sep (set bs)" by simp
  have fb: "fits b" using sepD(1)[OF sb assms(2)] .
  have "\<forall>y\<in>set bs. get_payload ?m' y = get_payload ?m y \<and> unat (payload_of ?m' y AND FREE_MASK) \<le> 1"
  proof
    fix y assume y: "y \<in> set bs"
    show "get_payload ?m' y = get_payload ?m y \<and> unat (payload_of ?m' y AND FREE_MASK) \<le> 1"
    proof (cases "y = b")
      case True
      then show ?thesis using assms(3,4) fb by (simp add: get_payload_alt fields_same FREE_MASK_def)
    next
      case False
      from payload_of_store_header[OF sb assms(2) y False] blocks_bounds[OF bl y]
      show ?thesis by (simp add: get_payload_alt)
    qed
  qed
  from blocks_frame_payload[OF bl this] have "blocks ?m' (segment_start s) (heap_end s) bs" .
  moreover have "\<forall>z\<in>set fl. prev_of ?m' z = prev_of ?m z \<and> next_of ?m' z = next_of ?m z"
    using links_store_header[OF sb assms(2)] sub by blast
  from dll_frame[OF d this] have "dll ?m' NULL (freelist_start s) fl" .
  ultimately show ?thesis using rok dis sub by (simp add: wf_def region_ok_def)
qed

lemma coalesce_unfold:
  "coalesce s b =
     (let n = b + get_payload (mem s) b + ALIGNMENT
      in if n = heap_end s \<or> \<not> check_free (mem s) n then s
         else
           let s1 = remove_freelist s n
           in s1\<lparr>mem := store64 (mem s1) b
                          (payload_of (mem s1) b + (get_payload (mem s) n + ALIGNMENT))\<rparr>)"
  by (auto simp add: coalesce_def get_next_block_def Let_def check_free_def)

lemma coalesce_globals:
  "segment_start (coalesce s x) = segment_start s"
  "segment_size (coalesce s x) = segment_size s"
  "heap_end (coalesce s x) = heap_end s"
  by (simp_all add: coalesce_unfold Let_def remove_freelist_globals)

lemma coalesce_none:
  assumes "b + get_payload (mem s) b + ALIGNMENT = heap_end s
           \<or> \<not> check_free (mem s) (b + get_payload (mem s) b + ALIGNMENT)"
  shows "coalesce s b = s"
  using assms by (auto simp add: coalesce_unfold Let_def)

lemma coalesce_merge:
  assumes "wf s bs fl" "b \<in> set bs"
    and fr: "\<forall>y\<in>set bs. y \<noteq> b \<longrightarrow> (check_free (mem s) y \<longleftrightarrow> y \<in> set fl)"
    and n: "n = b + get_payload (mem s) b + ALIGNMENT" "n \<noteq> heap_end s" "check_free (mem s) n"
  shows "wf (coalesce s b) (remove1 n bs) (remove1 n fl)"
    and "payload_of (mem (coalesce s b)) b = payload_of (mem s) b + (get_payload (mem s) n + ALIGNMENT)"
    and "\<forall>y\<in>set bs. y \<noteq> b \<longrightarrow> payload_of (mem (coalesce s b)) y = payload_of (mem s) y"
    and "n \<in> set bs" "n \<in> set fl" "n \<noteq> b"
proof -
  let ?m = "mem s"
  from assms(1) have rok: "region_ok s" and bl: "blocks ?m (segment_start s) (heap_end s) bs"
    and dis: "distinct fl"
    by (simp_all add: wf_def)
  from wf_sep[OF assms(1)] have sb: "sep (set bs)" by simp
  show nb: "n \<in> set bs" using blocks_next_in[OF bl assms(2)] n by simp
  have "unat n = unat b + unat (get_payload ?m b) + 8"
    using unat_next[of b "get_payload ?m b" "heap_end s"] blocks_bounds[OF bl assms(2)] n(1) by simp
  then show nneq: "n \<noteq> b" by auto
  show nf: "n \<in> set fl" using fr nb nneq n(3) by simp
  let ?s1 = "remove_freelist s n"
  let ?v = "payload_of (mem ?s1) b + (get_payload ?m n + ALIGNMENT)"
  let ?s' = "?s1\<lparr>mem := store64 (mem ?s1) b ?v\<rparr>"
  have eq: "coalesce s b = ?s'" using n by (simp add: coalesce_unfold Let_def)
  from remove_freelist_wf[OF assms(1) nf]
  have w1: "wf ?s1 bs (remove1 n fl)"
    and h1: "\<forall>y\<in>set bs. payload_of (mem ?s1) y = payload_of ?m y" by simp_all
  from w1 have bl1: "blocks (mem ?s1) (segment_start s) (heap_end s) bs"
    and d1: "dll (mem ?s1) NULL (freelist_start ?s1) (remove1 n fl)"
    and sub1: "set (remove1 n fl) \<subseteq> set bs"
    by (simp_all add: wf_def remove_freelist_globals)
  have fb: "fits b" using sepD(1)[OF sb assms(2)] .
  have hb: "payload_of (mem ?s') b = payload_of (mem ?s1) b + (get_payload (mem ?s1) n + ALIGNMENT)"
    using fb h1 nb by (simp add: fields_same get_payload_def)
  have hf: "\<forall>y\<in>set bs. y \<noteq> b \<longrightarrow> payload_of (mem ?s') y = payload_of (mem ?s1) y"
    using payload_of_store_header[OF sb assms(2)] by simp
  from blocks_merge[OF bl1 assms(2) _ n(2) hb hf] n(1) h1 assms(2)
  have bl': "blocks (mem ?s') (segment_start s) (heap_end s) (remove1 n bs)"
    by (simp add: get_payload_def)
  have "\<forall>z\<in>set (remove1 n fl). prev_of (mem ?s') z = prev_of (mem ?s1) z
          \<and> next_of (mem ?s') z = next_of (mem ?s1) z"
    using links_store_header[OF sb assms(2)] sub1 by auto
  from dll_frame[OF d1 this] have d': "dll (mem ?s') NULL (freelist_start ?s') (remove1 n fl)" by simp
  have "set (remove1 n fl) \<subseteq> set (remove1 n bs)"
    using sub1 dis blocks_distinct[OF bl] by auto
  then show "wf (coalesce s b) (remove1 n bs) (remove1 n fl)"
    unfolding eq using bl' d' rok dis by (simp add: wf_def region_ok_def remove_freelist_globals)
  show "payload_of (mem (coalesce s b)) b = payload_of (mem s) b + (get_payload (mem s) n + ALIGNMENT)"
    unfolding eq using hb h1 assms(2) nb by (simp add: get_payload_def)
  show "\<forall>y\<in>set bs. y \<noteq> b \<longrightarrow> payload_of (mem (coalesce s b)) y = payload_of (mem s) y"
    unfolding eq using hf h1 by simp
qed

lemma insert_after_set:
  "b \<in> set bs \<Longrightarrow> set (insert_after b n bs) = insert n (set bs)"
  by (induction bs) auto

lemma split_new_far:
  assumes "blocks m a e bs" "b \<in> set bs" "16 \<le> unat r"
    and "unat r + 24 \<le> unat (get_payload m b)" "new = b + r + ALIGNMENT"
  shows "unat new = unat b + unat r + 8" "fits new" "far b new" "new \<notin> set bs"
    and "\<forall>y\<in>set bs. y \<noteq> b \<longrightarrow> far y new"
proof -
  have bb: "unat b + 8 + unat (get_payload m b) \<le> unat e" using blocks_bounds[OF assms(1,2)] by simp
  have e: "unat e < 2 ^ 64" using unsigned_less[of e] by simp
  show un: "unat new = unat b + unat r + 8"
    unfolding assms(5) using unat_next[of b r e] bb assms(4) by simp
  show "fits new" using un bb e assms(4) by (simp add: fits_def)
  show "far b new" using un assms(3) by (simp add: far_def)
  show fy: "\<forall>y\<in>set bs. y \<noteq> b \<longrightarrow> far y new"
  proof (intro ballI impI)
    fix y assume y: "y \<in> set bs" "y \<noteq> b"
    from blocks_extent_disj[OF assms(1) y(1) assms(2) y(2)] blocks_bounds[OF assms(1) y(1)]
    show "far y new" using un assms(3,4) by (auto simp: far_def)
  qed
  show "new \<notin> set bs"
  proof
    assume "new \<in> set bs"
    moreover have "new \<noteq> b" using un by auto
    ultimately have "far new new" using fy by auto
    then show False by (simp add: far_def)
  qed
qed

lemma wf_split:
  assumes "wf s bs fl" "b \<in> set bs" "16 \<le> unat r" "r AND 7 = 0"
    and "unat r + 24 \<le> unat (get_payload (mem s) b)" "new = b + r + ALIGNMENT"
    and "s1 = s\<lparr>mem := store64 (store64 (mem s) b (r + 1)) new
                          (get_payload (mem s) b - r - ALIGNMENT)\<rparr>"
  shows "wf s1 (insert_after b new bs) fl"
    and "payload_of (mem s1) b = r + 1"
    and "payload_of (mem s1) new = get_payload (mem s) b - r - ALIGNMENT"
    and "\<forall>y\<in>set bs. y \<noteq> b \<longrightarrow> payload_of (mem s1) y = payload_of (mem s) y"
proof -
  let ?m = "mem s" and ?P = "get_payload (mem s) b"
  let ?m1 = "store64 (store64 ?m b (r + 1)) new (?P - r - ALIGNMENT)"
  from assms(1) have rok: "region_ok s" and bl: "blocks ?m (segment_start s) (heap_end s) bs"
    and d: "dll ?m NULL (freelist_start s) fl" and dis: "distinct fl" and sub: "set fl \<subseteq> set bs"
    by (simp_all add: wf_def)
  from wf_sep[OF assms(1)] have sb: "sep (set bs)" by simp
  note nf = split_new_far[OF bl assms(2,3,5,6)]
  have fb: "fits b" using sepD(1)[OF sb assms(2)] .
  have m1: "mem s1 = ?m1" using assms(7) by simp
  show hb: "payload_of (mem s1) b = r + 1"
    unfolding m1 using fb nf(2,3) by (simp add: fields_far fields_same)
  show hn: "payload_of (mem s1) new = ?P - r - ALIGNMENT"
    unfolding m1 using nf(2) by (simp add: fields_same)
  show hy: "\<forall>y\<in>set bs. y \<noteq> b \<longrightarrow> payload_of (mem s1) y = payload_of ?m y"
  proof (intro ballI impI)
    fix y assume y: "y \<in> set bs" "y \<noteq> b"
    then have "far y new" "far y b" "fits y" using nf(5) sepD[OF sb] assms(2) by auto
    then show "payload_of (mem s1) y = payload_of ?m y"
      unfolding m1 using fb nf(2) by (simp add: fields_far)
  qed
  have gb: "get_payload (mem s1) b = r" "unat (payload_of (mem s1) b AND FREE_MASK) \<le> 1"
    using hdr_mark_used[OF assms(4)] by (simp_all add: get_payload_alt hb FREE_MASK_def)
  from blocks_split[OF bl assms(2,6,3,5) gb hn assms(4) hy]
  have bl1: "blocks (mem s1) (segment_start s) (heap_end s) (insert_after b new bs)" .
  have "\<forall>z\<in>set fl. prev_of (mem s1) z = prev_of ?m z \<and> next_of (mem s1) z = next_of ?m z"
  proof
    fix z assume "z \<in> set fl"
    then have z: "z \<in> set bs" using sub by blast
    have fz: "fits z" using sepD(1)[OF sb z] .
    have "far z new" using nf(3,5) z by auto
    then have "prev_of ?m1 z = prev_of (store64 ?m b (r + 1)) z"
      "next_of ?m1 z = next_of (store64 ?m b (r + 1)) z"
      using fz nf(2) by (simp_all add: fields_far)
    then show "prev_of (mem s1) z = prev_of ?m z \<and> next_of (mem s1) z = next_of ?m z"
      unfolding m1 using links_store_header[OF sb assms(2) z] by simp
  qed
  from dll_frame[OF d this] have "dll (mem s1) NULL (freelist_start s) fl" .
  then show "wf s1 (insert_after b new bs) fl"
    using bl1 rok dis sub insert_after_set[OF assms(2)] assms(7)
    by (auto simp add: wf_def region_ok_def)
qed

lemma add_block_unfold:
  "add_block s b r =
     (let new = b + r + ALIGNMENT;
          s1 = s\<lparr>mem := store64 (store64 (mem s) b (r + 1)) new
                            (get_payload (mem s) b - r - ALIGNMENT)\<rparr>
      in coalesce (add_freelist (if check_free (mem s) b then remove_freelist s1 b else s1) new) new)"
  by (simp add: add_block_def Let_def)

lemma add_block_globals:
  "segment_start (add_block s b r) = segment_start s"
  "segment_size (add_block s b r) = segment_size s"
  "heap_end (add_block s b r) = heap_end s"
  by (simp_all add: add_block_unfold Let_def coalesce_globals add_freelist_globals
      remove_freelist_globals)

lemma heap_invD:
  assumes "heap_inv s bs fl"
  shows "wf s bs fl" "\<And>y. y \<in> set bs \<Longrightarrow> check_free (mem s) y \<longleftrightarrow> y \<in> set fl"
  using assms by (simp_all add: heap_inv_def)

lemma aligned_payload: "get_payload m b AND 7 = 0"
  by (simp add: get_payload_alt and_7_m8)

lemma aligned_diff:
  assumes "(p::64 word) AND 7 = 0" "(r::64 word) AND 7 = 0"
  shows "(p - r - ALIGNMENT) AND 7 = 0"
proof -
  have "(p - r - ALIGNMENT) + (r + ALIGNMENT) = p" by simp
  moreover have "(r + ALIGNMENT) AND 7 = 0"
    using and_7_add[of 8 r] assms(2) by (simp add: ALIGNMENT_def)
  ultimately show ?thesis using and_7_add[of "r + ALIGNMENT" "p - r - ALIGNMENT"] assms(1)
    by simp
qed

lemma aligned_get_payload: "v AND 7 = 0 \<Longrightarrow> v AND - 8 = (v::64 word)"
  by (simp add: and_m8_eq)

lemma add_block_inv:
  assumes inv: "heap_inv s bs fl" and b: "b \<in> set bs"
    and r: "16 \<le> unat r" "r AND 7 = 0" "unat r + 24 \<le> unat (get_payload (mem s) b)"
    and new: "new = b + r + ALIGNMENT"
    and nx: "nx = b + get_payload (mem s) b + ALIGNMENT"
    and c: "c \<longleftrightarrow> nx \<noteq> heap_end s \<and> check_free (mem s) nx"
    and bsA: "bsA = insert_after b new bs"
    and flA: "flA = new # remove1 b fl"
  shows "heap_inv (add_block s b r) (if c then remove1 nx bsA else bsA)
           (if c then remove1 nx flA else flA)"
    and "payload_of (mem (add_block s b r)) b = r + 1"
    and "\<forall>y\<in>set bs. y \<noteq> b \<longrightarrow> payload_of (mem (add_block s b r)) y = payload_of (mem s) y"
    and "payload_of (mem (add_block s b r)) new =
           (get_payload (mem s) b - r - ALIGNMENT)
           + (if c then get_payload (mem s) nx + ALIGNMENT else 0)"
proof -
  let ?m = "mem s" and ?P = "get_payload (mem s) b"
  define s1 where "s1 = s\<lparr>mem := store64 (store64 ?m b (r + 1)) new (?P - r - ALIGNMENT)\<rparr>"
  define s2 where "s2 = (if check_free ?m b then remove_freelist s1 b else s1)"
  define s3 where "s3 = add_freelist s2 new"
  let ?flB = "remove1 b fl"
  note w = heap_invD(1)[OF inv] and flags = heap_invD(2)[OF inv]
  from w have rok: "region_ok s" and bl: "blocks ?m (segment_start s) (heap_end s) bs"
    and dis: "distinct fl" and sub: "set fl \<subseteq> set bs"
    by (simp_all add: wf_def)
  note nf = split_new_far[OF bl b r(1,3) new]
  have eq: "add_block s b r = coalesce s3 new"
    by (simp add: add_block_unfold Let_def new s1_def s2_def s3_def)
  have setA: "set bsA = insert new (set bs)" using insert_after_set[OF b] bsA by simp
  note sp = wf_split[OF w b r(1,2,3) new s1_def]
  have w1: "wf s1 bsA fl" using sp(1) bsA by simp
  have w2: "wf s2 bsA ?flB"
    and h2: "\<forall>y\<in>set bsA. payload_of (mem s2) y = payload_of (mem s1) y"
  proof -
    show "wf s2 bsA ?flB"
    proof (cases "check_free ?m b")
      case True
      then have "b \<in> set fl" using flags[OF b] by simp
      from remove_freelist_wf(1)[OF w1 this] True show ?thesis by (simp add: s2_def)
    next
      case False
      then have "b \<notin> set fl" using flags[OF b] by simp
      then show ?thesis using w1 False by (simp add: remove1_idem s2_def)
    qed
    show "\<forall>y\<in>set bsA. payload_of (mem s2) y = payload_of (mem s1) y"
    proof (cases "check_free ?m b")
      case True
      then have "b \<in> set fl" using flags[OF b] by simp
      from remove_freelist_wf(2)[OF w1 this] True show ?thesis by (simp add: s2_def)
    next
      case False
      then show ?thesis by (simp add: s2_def)
    qed
  qed
  have newA: "new \<in> set bsA" using setA by simp
  have newB: "new \<notin> set ?flB" using nf(4) sub set_remove1_subset[of b fl] by blast
  note af = add_freelist_wf[OF w2 newA newB]
  have w3: "wf s3 bsA flA" using af(1) flA by (simp add: s3_def)
  have h3: "\<forall>y\<in>set bsA. payload_of (mem s3) y = payload_of (mem s1) y"
    using af(2) h2 by (simp add: s3_def)
  have h3b: "payload_of (mem s3) b = r + 1" using h3 sp(2) setA b by simp
  have h3n: "payload_of (mem s3) new = ?P - r - ALIGNMENT" using h3 sp(3) newA by simp
  have h3y: "\<forall>y\<in>set bs. y \<noteq> b \<longrightarrow> payload_of (mem s3) y = payload_of ?m y"
    using h3 sp(4) setA by simp
  have al: "(?P - r - ALIGNMENT) AND 7 = 0" using aligned_diff[OF aligned_payload r(2)] .
  have g3n: "get_payload (mem s3) new = ?P - r - ALIGNMENT"
    using aligned_get_payload[OF al] by (simp add: get_payload_alt h3n)
  have "new + (?P - r - ALIGNMENT) + ALIGNMENT = nx" unfolding new nx by simp
  then have nx3: "new + get_payload (mem s3) new + ALIGNMENT = nx" by (simp only: g3n)
  have rok3: "region_ok s3" using w3 by (simp add: wf_def)
  have newnn: "new \<noteq> NULL"
    using blocks_not_null[OF rok3 _ newA] w3 by (simp add: wf_def)
  have bnn: "b \<noteq> NULL" using blocks_not_null[OF rok bl b] .
  have bnew: "b \<noteq> new" using nf(3) far_neq by blast
  have free_new: "check_free (mem s3) new" using al newnn by (simp add: check_free_alt h3n)
  have used_b: "\<not> check_free (mem s3) b"
    using hdr_mark_used(1)[OF r(2)] by (simp add: check_free_alt h3b)
  have flags3: "\<forall>y\<in>set bsA. check_free (mem s3) y \<longleftrightarrow> y \<in> set flA"
  proof
    fix y assume "y \<in> set bsA"
    then consider "y = new" | "y = b" | "y \<in> set bs" "y \<noteq> b" "y \<noteq> new"
      using setA by auto
    then show "check_free (mem s3) y \<longleftrightarrow> y \<in> set flA"
    proof cases
      case 1 then show ?thesis using free_new flA by simp
    next
      case 2 then show ?thesis using used_b flA bnew dis by simp
    next
      case 3
      then have "check_free (mem s3) y \<longleftrightarrow> check_free ?m y"
        using h3y by (simp add: check_free_def)
      then show ?thesis using flags[OF 3(1)] 3 flA by simp
    qed
  qed
  have hend: "heap_end s3 = heap_end s" "segment_start s3 = segment_start s"
    by (simp_all add: add_freelist_globals remove_freelist_globals s1_def s2_def s3_def)
  have nxin: "nx \<noteq> heap_end s \<Longrightarrow> nx \<in> set bs \<and> nx \<noteq> b \<and> nx \<noteq> new"
  proof -
    assume ne: "nx \<noteq> heap_end s"
    then have 1: "nx \<in> set bs" using blocks_next_in[OF bl b] nx by simp
    have "unat nx = unat b + unat ?P + 8"
      using unat_next[of b ?P "heap_end s"] blocks_bounds[OF bl b] nx by simp
    then have "nx \<noteq> b" by auto
    then show ?thesis using 1 nf(4) by auto
  qed
  have cf3: "nx \<noteq> heap_end s \<Longrightarrow> check_free (mem s3) nx \<longleftrightarrow> check_free ?m nx"
    using nxin h3y by (simp add: check_free_def)
  have g3x: "nx \<noteq> heap_end s \<Longrightarrow> get_payload (mem s3) nx = get_payload ?m nx"
    using nxin h3y by (simp add: get_payload_def)
  show "heap_inv (add_block s b r) (if c then remove1 nx bsA else bsA)
           (if c then remove1 nx flA else flA)"
    and "payload_of (mem (add_block s b r)) b = r + 1"
    and "\<forall>y\<in>set bs. y \<noteq> b \<longrightarrow> payload_of (mem (add_block s b r)) y = payload_of (mem s) y"
    and "payload_of (mem (add_block s b r)) new =
           (?P - r - ALIGNMENT) + (if c then get_payload ?m nx + ALIGNMENT else 0)"
  proof (atomize (full), cases c)
    case True
    then have ne: "nx \<noteq> heap_end s" and fx: "check_free ?m nx" using c by simp_all
    have fr: "\<forall>y\<in>set bsA. y \<noteq> new \<longrightarrow> (check_free (mem s3) y \<longleftrightarrow> y \<in> set flA)"
      using flags3 by simp
    have "nx \<noteq> heap_end s3" "check_free (mem s3) nx" using ne fx cf3 hend by simp_all
    note cm = coalesce_merge[OF w3 newA fr nx3[symmetric] this]
    have disA: "distinct flA" using w3 by (simp add: wf_def)
    have h4n: "payload_of (mem (coalesce s3 new)) new
                 = (?P - r - ALIGNMENT) + (get_payload ?m nx + ALIGNMENT)"
      using cm(2) h3n g3x[OF ne] by simp
    have al4: "((?P - r - ALIGNMENT) + (get_payload ?m nx + ALIGNMENT)) AND 7 = 0"
    proof -
      have "(get_payload ?m nx + ALIGNMENT) AND 7 = 0"
        using and_7_add[of 8 "get_payload ?m nx"] aligned_payload[of ?m nx] by (simp add: ALIGNMENT_def)
      from and_7_add[OF this, of "?P - r - ALIGNMENT"] al show ?thesis by (simp only:)
    qed
    have "\<forall>y\<in>set (remove1 nx bsA). check_free (mem (coalesce s3 new)) y \<longleftrightarrow> y \<in> set (remove1 nx flA)"
    proof
      fix y assume y: "y \<in> set (remove1 nx bsA)"
      have dA: "distinct bsA" using blocks_distinct w3 by (auto simp: wf_def)
      from y dA have yA: "y \<in> set bsA" and ynx: "y \<noteq> nx" by auto
      show "check_free (mem (coalesce s3 new)) y \<longleftrightarrow> y \<in> set (remove1 nx flA)"
      proof (cases "y = new")
        case True
        then show ?thesis using al4 newnn h4n flA nxin[OF ne] by (simp add: check_free_alt)
      next
        case False
        then have "payload_of (mem (coalesce s3 new)) y = payload_of (mem s3) y"
          using cm(3) yA by simp
        then have "check_free (mem (coalesce s3 new)) y \<longleftrightarrow> check_free (mem s3) y"
          by (simp add: check_free_def)
        then show ?thesis using flags3 yA ynx disA by simp
      qed
    qed
    then have "heap_inv (coalesce s3 new) (remove1 nx bsA) (remove1 nx flA)"
      using cm(1) by (simp add: heap_inv_def)
    moreover have "payload_of (mem (coalesce s3 new)) b = r + 1"
      using cm(3) h3b bnew setA b by simp
    moreover have "\<forall>y\<in>set bs. y \<noteq> b \<longrightarrow> payload_of (mem (coalesce s3 new)) y = payload_of ?m y"
      using cm(3) h3y setA nf(4) by auto
    ultimately show "(heap_inv (add_block s b r) (if c then remove1 nx bsA else bsA)
           (if c then remove1 nx flA else flA)
      \<and> payload_of (mem (add_block s b r)) b = r + 1)
      \<and> (\<forall>y\<in>set bs. y \<noteq> b \<longrightarrow> payload_of (mem (add_block s b r)) y = payload_of (mem s) y)
      \<and> payload_of (mem (add_block s b r)) new =
           (?P - r - ALIGNMENT) + (if c then get_payload ?m nx + ALIGNMENT else 0)"
      unfolding eq using True h4n by simp
  next
    case False
    then have "nx = heap_end s \<or> \<not> check_free ?m nx" using c by simp
    then have "new + get_payload (mem s3) new + ALIGNMENT = heap_end s3
           \<or> \<not> check_free (mem s3) (new + get_payload (mem s3) new + ALIGNMENT)"
      unfolding nx3 using cf3 hend by auto
    from coalesce_none[OF this] have e4: "coalesce s3 new = s3" .
    have "heap_inv s3 bsA flA" using w3 flags3 by (simp add: heap_inv_def)
    then show "(heap_inv (add_block s b r) (if c then remove1 nx bsA else bsA)
           (if c then remove1 nx flA else flA)
      \<and> payload_of (mem (add_block s b r)) b = r + 1)
      \<and> (\<forall>y\<in>set bs. y \<noteq> b \<longrightarrow> payload_of (mem (add_block s b r)) y = payload_of (mem s) y)
      \<and> payload_of (mem (add_block s b r)) new =
           (?P - r - ALIGNMENT) + (if c then get_payload ?m nx + ALIGNMENT else 0)"
      unfolding eq e4 using False h3b h3y h3n by simp
  qed
qed

lemma myinit_inv:
  assumes "valid_region a n" "myinit s a n = (s', True)"
  shows "heap_inv s' [a] [a]"
proof -
  from assms(2) have ge: "\<not> n < 24" by (auto simp: myinit_def ALIGNMENT_def split: if_splits)
  then have n24: "24 \<le> unat n" by (simp add: word_less_nat_alt)
  from assms(1) have a0: "a \<noteq> NULL" and al: "unat n mod 8 = 0"
    and bnd: "unat a + unat n + 16 \<le> 2 ^ 64" by (simp_all add: valid_region_def)
  let ?m = "store64 (store64 (store64 (mem s) a (n - ALIGNMENT)) (a + 8) NULL) (a + 16) NULL"
  have s': "s' = s\<lparr>mem := ?m, segment_start := a, segment_size := n, heap_end := a + n,
                     freelist_start := a\<rparr>"
    using assms(2) ge by (auto simp: myinit_def ALIGNMENT_def Let_def split: if_splits)
  have fa: "fits a" using n24 bnd by (simp add: fits_def)
  have un8: "unat (n - ALIGNMENT) = unat n - 8"
    using n24 by (simp add: unat_sub ALIGNMENT_def word_le_nat_alt)
  have "(unat n - 8) mod 8 = 0" using al n24 by presburger
  then have al8: "(n - ALIGNMENT) AND 7 = 0" by (simp add: aligned_iff un8)
  have hp: "payload_of ?m a = n - ALIGNMENT" using fa by (simp add: fields_same)
  have gp: "get_payload ?m a = n - ALIGNMENT"
    using aligned_get_payload[OF al8] by (simp add: get_payload_alt hp)
  have ue: "unat (a + n) = unat a + unat n" using bnd by (simp add: unat_word_ariths)
  have "blocks ?m a (a + n) [a]"
    using gp un8 n24 ue al8 by (simp add: hp FREE_MASK_def)
  moreover have "dll ?m NULL a [a]" using a0 fa by (simp add: fields_same)
  moreover have "check_free ?m a" using a0 al8 by (simp add: check_free_alt hp)
  moreover have "region_ok s'" using a0 ue bnd unfolding s' by (simp add: region_ok_def)
  ultimately show ?thesis unfolding s' by (simp add: heap_inv_def wf_def region_ok_def)
qed

lemma search_freelist_inv:
  assumes "heap_inv s bs fl"
  shows "search_freelist s r =
           Some (case find (\<lambda>x. r \<le> get_payload (mem s) x) fl of None \<Rightarrow> NULL | Some x \<Rightarrow> x)"
proof -
  note w = heap_invD(1)[OF assms] and flags = heap_invD(2)[OF assms]
  from w have d: "dll (mem s) NULL (freelist_start s) fl" and sub: "set fl \<subseteq> set bs"
    by (simp_all add: wf_def)
  have "find (\<lambda>x. check_free (mem s) x \<and> r \<le> get_payload (mem s) x) fl
        = find (\<lambda>x. r \<le> get_payload (mem s) x) fl"
    using flags sub by (intro find_cong) auto
  with dll_search[OF d, of r] show ?thesis by (simp add: search_freelist_def)
qed

lemma insert_after_last:
  "distinct bs \<Longrightarrow> bs \<noteq> [] \<Longrightarrow> insert_after (last bs) n bs = bs @ [n]"
  by (induction bs) auto

lemma payload_bound:
  assumes "wf s bs fl" "b \<in> set bs"
  shows "unat (get_payload (mem s) b) + 24 < 2 ^ 64"
proof -
  from assms(1) have rok: "region_ok s" and bl: "blocks (mem s) (segment_start s) (heap_end s) bs"
    by (simp_all add: wf_def)
  have "unat b \<noteq> 0" using blocks_not_null[OF rok bl assms(2)] by (simp add: unat_eq_0)
  with blocks_bounds[OF bl assms(2)] rok show ?thesis by (simp add: region_ok_def)
qed

lemma slack_le:
  assumes "unat (r::64 word) + 24 < 2 ^ 64"
  shows "r + ALIGNMENT * 3 \<le> p \<longleftrightarrow> unat r + 24 \<le> unat p"
    and "r + ALIGNMENT * 3 < p \<longleftrightarrow> unat r + 24 < unat p"
proof -
  have "unat (r + ALIGNMENT * 3) = unat r + 24"
    using assms by (simp add: ALIGNMENT_def unat_word_ariths)
  then show "r + ALIGNMENT * 3 \<le> p \<longleftrightarrow> unat r + 24 \<le> unat p"
    and "r + ALIGNMENT * 3 < p \<longleftrightarrow> unat r + 24 < unat p"
    by (simp_all add: word_le_nat_alt word_less_nat_alt)
qed

lemma ptr_of_block:
  assumes "fits b"
  shows "b + ALIGNMENT - ALIGNMENT = b" "b + ALIGNMENT \<noteq> NULL"
proof -
  show "b + ALIGNMENT - ALIGNMENT = b" by simp
  have "unat (b + 8) = unat b + 8" using fits_unat[OF assms] by simp
  then have "unat (b + 8) \<noteq> 0" by simp
  then show "b + ALIGNMENT \<noteq> NULL" unfolding ALIGNMENT_def by (metis unat_eq_0)
qed

lemma mymalloc_whole:
  assumes inv: "heap_inv s bs fl" and b: "b \<in> set fl"
    and s': "s' = remove_freelist (s\<lparr>mem := store64 (mem s) b (payload_of (mem s) b + 1)\<rparr>) b"
  shows "heap_inv s' bs (remove1 b fl)"
    and "payload_of (mem s') b = payload_of (mem s) b + 1"
    and "\<forall>y\<in>set bs. y \<noteq> b \<longrightarrow> payload_of (mem s') y = payload_of (mem s) y"
proof -
  let ?m = "mem s" and ?v = "payload_of (mem s) b"
  define s1 where "s1 = s\<lparr>mem := store64 ?m b (?v + 1)\<rparr>"
  note w = heap_invD(1)[OF inv] and flags = heap_invD(2)[OF inv]
  from w have sub: "set fl \<subseteq> set bs" and dis: "distinct fl" by (simp_all add: wf_def)
  have bb: "b \<in> set bs" using b sub by blast
  from wf_sep[OF w] have sb: "sep (set bs)" by simp
  have fb: "fits b" using sepD(1)[OF sb bb] .
  have fr: "?v AND 7 = 0" using flags[OF bb] b by (simp add: check_free_alt)
  note mu = hdr_mark_used[OF fr]
  have "(?v + 1) AND - 8 = get_payload ?m b" "unat ((?v + 1) AND 7) \<le> 1"
    using mu aligned_get_payload[OF fr] by (simp_all add: get_payload_alt)
  from wf_header_update[OF w bb this] have w1: "wf s1 bs fl" by (simp add: s1_def)
  have h1b: "payload_of (mem s1) b = ?v + 1" using fb by (simp add: s1_def fields_same)
  have h1y: "\<forall>y\<in>set bs. y \<noteq> b \<longrightarrow> payload_of (mem s1) y = payload_of ?m y"
    using payload_of_store_header[OF sb bb] by (simp add: s1_def)
  have e: "s' = remove_freelist s1 b" using s' by (simp add: s1_def)
  note rf = remove_freelist_wf[OF w1 b]
  show hb: "payload_of (mem s') b = ?v + 1" using rf(2) h1b bb unfolding e by simp
  show hy: "\<forall>y\<in>set bs. y \<noteq> b \<longrightarrow> payload_of (mem s') y = payload_of ?m y"
    using rf(2) h1y unfolding e by simp
  have "\<forall>y\<in>set bs. check_free (mem s') y \<longleftrightarrow> y \<in> set (remove1 b fl)"
  proof
    fix y assume y: "y \<in> set bs"
    show "check_free (mem s') y \<longleftrightarrow> y \<in> set (remove1 b fl)"
    proof (cases "y = b")
      case True
      then show ?thesis using mu(1) dis by (simp add: check_free_alt hb)
    next
      case False
      then have "check_free (mem s') y \<longleftrightarrow> check_free ?m y"
        using hy y by (simp add: check_free_def)
      then show ?thesis using flags[OF y] False by simp
    qed
  qed
  then show "heap_inv s' bs (remove1 b fl)" using rf(1) unfolding e by (simp add: heap_inv_def)
qed

lemma mymalloc_found:
  assumes inv: "heap_inv s bs fl"
    and r: "r = roundup n ALIGNMENT"
    and fnd: "find (\<lambda>x. r \<le> get_payload (mem s) x) fl = Some b"
    and max: "\<not> M < r"
    and cond: "cond \<longleftrightarrow> b + get_payload (mem s) b + ALIGNMENT = heap_end s
                     \<and> r + ALIGNMENT * 3 \<le> get_payload (mem s) b"
  shows "\<exists>s'. mymalloc M s n = Some (s', b + ALIGNMENT)
     \<and> (if cond
         then heap_inv s' (bs @ [b + r + ALIGNMENT]) ((b + r + ALIGNMENT) # remove1 b fl)
              \<and> payload_of (mem s') b = r + 1
              \<and> payload_of (mem s') (b + r + ALIGNMENT) = get_payload (mem s) b - r - ALIGNMENT
         else heap_inv s' bs (remove1 b fl)
              \<and> payload_of (mem s') b = payload_of (mem s) b + 1)
     \<and> (\<forall>y\<in>set bs. y \<noteq> b \<longrightarrow> payload_of (mem s') y = payload_of (mem s) y)"
proof -
  let ?m = "mem s" and ?P = "get_payload (mem s) b"
  note w = heap_invD(1)[OF inv]
  from w have sub: "set fl \<subseteq> set bs" and bl: "blocks ?m (segment_start s) (heap_end s) bs"
    by (simp_all add: wf_def)
  from fnd have bf: "b \<in> set fl" and rP: "r \<le> ?P" by (auto simp: find_Some_iff)
  have bb: "b \<in> set bs" using bf sub by blast
  have bnn: "b \<noteq> NULL" using blocks_not_null[OF _ bl bb] w by (simp add: wf_def)
  have sf: "search_freelist s (roundup n ALIGNMENT) = Some b"
    using search_freelist_inv[OF inv, of r] fnd r by simp
  have ur: "unat r + 24 < 2 ^ 64" using payload_bound[OF w bb] rP by (simp add: word_le_nat_alt)
  show ?thesis
  proof (cases cond)
    case True
    then have tail: "b + ?P + ALIGNMENT = heap_end s" and sl: "unat r + 24 \<le> unat ?P"
      using cond slack_le(1)[OF ur] by simp_all
    have eq: "mymalloc M s n = Some (add_block s b r, b + ALIGNMENT)"
      using sf bnn max True cond r by (simp add: mymalloc_def Let_def)
    have r16: "16 \<le> unat r" "r AND 7 = 0"
      using roundup_ge_16[of n] roundup_aligned[of n] r
      by (simp_all add: ALIGNMENT_def word_le_nat_alt)
    have c: "False \<longleftrightarrow> b + ?P + ALIGNMENT \<noteq> heap_end s \<and> check_free ?m (b + ?P + ALIGNMENT)"
      using tail by simp
    note ab = add_block_inv[OF inv bb r16 sl refl refl c refl refl]
    have lb: "b = last bs" using blocks_last[OF bl bb] tail by simp
    have "bs \<noteq> []" using bb by auto
    from insert_after_last[OF blocks_distinct[OF bl] this, of "b + r + ALIGNMENT"]
    have "insert_after b (b + r + ALIGNMENT) bs = bs @ [b + r + ALIGNMENT]"
      using lb by simp
    then show ?thesis using ab eq True by simp
  next
    case False
    define s' where "s' = remove_freelist (s\<lparr>mem := store64 ?m b (payload_of ?m b + 1)\<rparr>) b"
    have eq: "mymalloc M s n = Some (s', b + ALIGNMENT)"
      using sf bnn max False cond r by (auto simp add: mymalloc_def Let_def s'_def)
    from mymalloc_whole[OF inv bf s'_def] eq False show ?thesis by simp
  qed
qed

lemma mymalloc_null:
  assumes inv: "heap_inv s bs fl"
    and r: "r = roundup n ALIGNMENT"
    and fnd: "find (\<lambda>x. r \<le> get_payload (mem s) x) fl = None \<or> M < r"
  shows "mymalloc M s n = Some (s, NULL)"
proof -
  from search_freelist_inv[OF inv, of r] r
  have "search_freelist s (roundup n ALIGNMENT)
          = Some (case find (\<lambda>x. r \<le> get_payload (mem s) x) fl of None \<Rightarrow> NULL | Some x \<Rightarrow> x)"
    by simp
  then show ?thesis using fnd r
    by (auto simp add: mymalloc_def Let_def split: option.splits)
qed

lemma used_flag:
  assumes "blocks m a e bs" "b \<in> set bs" "\<not> check_free m b" "b \<noteq> NULL"
  shows "payload_of m b AND 7 = 1"
proof -
  have "unat (payload_of m b AND 7) \<le> 1" using blocks_bounds[OF assms(1,2)] by (simp add: FREE_MASK_def)
  then have "payload_of m b AND 7 = 0 \<or> payload_of m b AND 7 = 1" by (simp only: flag_cases)
  then show ?thesis using assms(3,4) by (auto simp: check_free_alt)
qed

lemma myfree_inv:
  assumes inv: "heap_inv s bs fl" and b: "b \<in> set bs" and used: "\<not> check_free (mem s) b"
    and nx: "nx = b + get_payload (mem s) b + ALIGNMENT"
    and c: "c \<longleftrightarrow> nx \<noteq> heap_end s \<and> check_free (mem s) nx"
  shows "heap_inv (myfree s (b + ALIGNMENT)) (if c then remove1 nx bs else bs)
           (if c then b # remove1 nx fl else b # fl)"
    and "payload_of (mem (myfree s (b + ALIGNMENT))) b =
           payload_of (mem s) b - 1 + (if c then get_payload (mem s) nx + ALIGNMENT else 0)"
    and "\<forall>y\<in>set bs. y \<noteq> b \<longrightarrow> payload_of (mem (myfree s (b + ALIGNMENT))) y = payload_of (mem s) y"
proof -
  let ?m = "mem s" and ?v = "payload_of (mem s) b"
  define s1 where "s1 = s\<lparr>mem := store64 ?m b (?v - 1)\<rparr>"
  define s2 where "s2 = add_freelist s1 b"
  note w = heap_invD(1)[OF inv] and flags = heap_invD(2)[OF inv]
  from w have rok: "region_ok s" and bl: "blocks ?m (segment_start s) (heap_end s) bs"
    and dis: "distinct fl" and sub: "set fl \<subseteq> set bs"
    by (simp_all add: wf_def)
  from wf_sep[OF w] have sb: "sep (set bs)" by simp
  have fb: "fits b" using sepD(1)[OF sb b] .
  have bnn: "b \<noteq> NULL" using blocks_not_null[OF rok bl b] .
  have eq: "myfree s (b + ALIGNMENT) = coalesce s2 b"
    using ptr_of_block[OF fb] by (simp add: myfree_def Let_def s1_def s2_def)
  have fl1: "?v AND 7 = 1" using used_flag[OF bl b used bnn] .
  note mf = hdr_mark_free[OF fl1]
  have "(?v - 1) AND - 8 = get_payload ?m b" "unat ((?v - 1) AND 7) \<le> 1"
    using mf by (simp_all add: get_payload_alt)
  from wf_header_update[OF w b this] have w1: "wf s1 bs fl" by (simp add: s1_def)
  have h1b: "payload_of (mem s1) b = ?v - 1" using fb by (simp add: s1_def fields_same)
  have h1y: "\<forall>y\<in>set bs. y \<noteq> b \<longrightarrow> payload_of (mem s1) y = payload_of ?m y"
    using payload_of_store_header[OF sb b] by (simp add: s1_def)
  have bnotin: "b \<notin> set fl" using flags[OF b] used by simp
  note af = add_freelist_wf[OF w1 b bnotin]
  have w2: "wf s2 bs (b # fl)" using af(1) by (simp add: s2_def)
  have h2b: "payload_of (mem s2) b = ?v - 1" using af(2) h1b b by (simp add: s2_def)
  have h2y: "\<forall>y\<in>set bs. y \<noteq> b \<longrightarrow> payload_of (mem s2) y = payload_of ?m y"
    using af(2) h1y by (simp add: s2_def)
  have g2b: "get_payload (mem s2) b = get_payload ?m b"
    using mf(2) by (simp add: get_payload_alt h2b)
  have free_b: "check_free (mem s2) b" using mf(1) bnn by (simp add: check_free_alt h2b)
  have flags2: "\<forall>y\<in>set bs. check_free (mem s2) y \<longleftrightarrow> y \<in> set (b # fl)"
  proof
    fix y assume y: "y \<in> set bs"
    show "check_free (mem s2) y \<longleftrightarrow> y \<in> set (b # fl)"
    proof (cases "y = b")
      case True then show ?thesis using free_b by simp
    next
      case False
      then have "check_free (mem s2) y \<longleftrightarrow> check_free ?m y" using h2y y by (simp add: check_free_def)
      then show ?thesis using flags[OF y] False by simp
    qed
  qed
  have hend: "heap_end s2 = heap_end s"
    by (simp add: add_freelist_globals s1_def s2_def)
  have nx2: "b + get_payload (mem s2) b + ALIGNMENT = nx" using g2b nx by simp
  have nxin: "nx \<noteq> heap_end s \<Longrightarrow> nx \<in> set bs \<and> nx \<noteq> b"
  proof -
    assume ne: "nx \<noteq> heap_end s"
    then have 1: "nx \<in> set bs" using blocks_next_in[OF bl b] nx by simp
    have "unat nx = unat b + unat (get_payload ?m b) + 8"
      using unat_next[of b "get_payload ?m b" "heap_end s"] blocks_bounds[OF bl b] nx by simp
    then have "nx \<noteq> b" by auto
    then show ?thesis using 1 by auto
  qed
  have cf2: "nx \<noteq> heap_end s \<Longrightarrow> check_free (mem s2) nx \<longleftrightarrow> check_free ?m nx"
    using nxin h2y check_free_cong[of "mem s2" nx ?m] by blast
  have main: "heap_inv (myfree s (b + ALIGNMENT)) (if c then remove1 nx bs else bs)
           (if c then b # remove1 nx fl else b # fl)
    \<and> payload_of (mem (myfree s (b + ALIGNMENT))) b =
           ?v - 1 + (if c then get_payload ?m nx + ALIGNMENT else 0)
    \<and> (\<forall>y\<in>set bs. y \<noteq> b \<longrightarrow> payload_of (mem (myfree s (b + ALIGNMENT))) y = payload_of ?m y)"
  proof (cases c)
    case True
    then have ne: "nx \<noteq> heap_end s" and fx: "check_free ?m nx" using c by simp_all
    have fr: "\<forall>y\<in>set bs. y \<noteq> b \<longrightarrow> (check_free (mem s2) y \<longleftrightarrow> y \<in> set (b # fl))"
      using flags2 by simp
    have "nx \<noteq> heap_end s2" "check_free (mem s2) nx"
      using ne fx hend cf2 by simp_all
    note cm = coalesce_merge[OF w2 b fr nx2[symmetric] this]
    have g2x: "get_payload (mem s2) nx = get_payload ?m nx"
      using nxin[OF ne] h2y by (simp add: get_payload_def)
    have h3b: "payload_of (mem (coalesce s2 b)) b = ?v - 1 + (get_payload ?m nx + ALIGNMENT)"
      using cm(2) h2b g2x by simp
    have al: "(?v - 1 + (get_payload ?m nx + ALIGNMENT)) AND 7 = 0"
    proof -
      have "(get_payload ?m nx + ALIGNMENT) AND 7 = 0"
        using and_7_add[of 8 "get_payload ?m nx"] aligned_payload[of ?m nx] by (simp add: ALIGNMENT_def)
      from and_7_add[OF this, of "?v - 1"] mf(1) show ?thesis by (simp only:)
    qed
    have r1: "remove1 nx (b # fl) = b # remove1 nx fl" using nxin[OF ne] by simp
    have dis2: "distinct (b # fl)" using w2 by (simp add: wf_def)
    have "\<forall>y\<in>set (remove1 nx bs). check_free (mem (coalesce s2 b)) y \<longleftrightarrow> y \<in> set (b # remove1 nx fl)"
    proof
      fix y assume y: "y \<in> set (remove1 nx bs)"
      from y blocks_distinct[OF bl] have yA: "y \<in> set bs" and ynx: "y \<noteq> nx" by auto
      show "check_free (mem (coalesce s2 b)) y \<longleftrightarrow> y \<in> set (b # remove1 nx fl)"
      proof (cases "y = b")
        case True
        then show ?thesis using al bnn h3b by (simp add: check_free_alt)
      next
        case False
        then have "payload_of (mem (coalesce s2 b)) y = payload_of (mem s2) y"
          using cm(3) yA by simp
        then have "check_free (mem (coalesce s2 b)) y \<longleftrightarrow> check_free (mem s2) y"
          by (simp add: check_free_def)
        then show ?thesis using flags2 yA ynx dis by simp
      qed
    qed
    then have "heap_inv (coalesce s2 b) (remove1 nx bs) (b # remove1 nx fl)"
      using cm(1) r1 by (simp add: heap_inv_def)
    moreover have "\<forall>y\<in>set bs. y \<noteq> b \<longrightarrow> payload_of (mem (coalesce s2 b)) y = payload_of ?m y"
      using cm(3) h2y by auto
    ultimately show ?thesis
      unfolding eq using True h3b by simp
  next
    case False
    then have "nx = heap_end s \<or> \<not> check_free ?m nx" using c by simp
    then have "b + get_payload (mem s2) b + ALIGNMENT = heap_end s2
           \<or> \<not> check_free (mem s2) (b + get_payload (mem s2) b + ALIGNMENT)"
      unfolding nx2 using cf2 hend by auto
    from coalesce_none[OF this] have e3: "coalesce s2 b = s2" .
    have "heap_inv s2 bs (b # fl)" using w2 flags2 by (simp add: heap_inv_def)
    then show ?thesis
      unfolding eq e3 using False h2b h2y by simp
  qed
  from main show "heap_inv (myfree s (b + ALIGNMENT)) (if c then remove1 nx bs else bs)
           (if c then b # remove1 nx fl else b # fl)"
    and "payload_of (mem (myfree s (b + ALIGNMENT))) b =
           ?v - 1 + (if c then get_payload ?m nx + ALIGNMENT else 0)"
    and "\<forall>y\<in>set bs. y \<noteq> b \<longrightarrow> payload_of (mem (myfree s (b + ALIGNMENT))) y = payload_of ?m y"
    by simp_all
qed

lemma in_range:
  fixes a x n :: "64 word"
  assumes "unat a + unat n \<le> 2 ^ 64"
  shows "x - a < n \<longleftrightarrow> unat a \<le> unat x \<and> unat x < unat a + unat n"
proof -
  have bx: "unat x < 2 ^ 64" using unsigned_less[of x] by simp
  show ?thesis using assms bx
    by (auto simp add: word_less_nat_alt unat_sub_if')
qed

lemma store64_byte:
  assumes "unat a + 8 \<le> 2 ^ 64"
  shows "store64 m a v x =
           (if unat a \<le> unat x \<and> unat x < unat a + 8
            then ucast (drop_bit (8 * unat (x - a)) v) else m x)"
  using in_range[of a 8 x] assms by (simp add: store64_def)

lemma store64_commute:
  assumes "unat a + 8 \<le> unat b \<or> unat b + 8 \<le> unat a"
    and "unat a + 8 \<le> 2 ^ 64" "unat b + 8 \<le> 2 ^ 64"
  shows "store64 (store64 m a v) b w = store64 (store64 m b w) a v"
proof
  fix x
  show "store64 (store64 m a v) b w x = store64 (store64 m b w) a v x"
    using assms(1) by (auto simp add: store64_byte[OF assms(2)] store64_byte[OF assms(3)])
qed

lemma coalesce_used:
  assumes inv: "heap_inv s bs fl" and b: "b \<in> set bs" and used: "\<not> check_free (mem s) b"
    and nx: "nx = b + get_payload (mem s) b + ALIGNMENT" "nx \<noteq> heap_end s" "check_free (mem s) nx"
  shows "heap_inv (coalesce s b) (remove1 nx bs) (remove1 nx fl)"
    and "\<not> check_free (mem (coalesce s b)) b"
    and "\<forall>y\<in>set bs. y \<noteq> b \<longrightarrow> payload_of (mem (coalesce s b)) y = payload_of (mem s) y"
    and "unat (get_payload (mem (coalesce s b)) b) =
           unat (get_payload (mem s) b) + unat (get_payload (mem s) nx) + 8"
    and "nx \<in> set bs" "nx \<noteq> b" "b \<in> set (remove1 nx bs)"
proof -
  let ?m = "mem s" and ?v = "payload_of (mem s) b" and ?s' = "coalesce s b"
  note w = heap_invD(1)[OF inv] and flags = heap_invD(2)[OF inv]
  from w have rok: "region_ok s" and bl: "blocks ?m (segment_start s) (heap_end s) bs"
    and dis: "distinct fl" by (simp_all add: wf_def)
  have bnn: "b \<noteq> NULL" using blocks_not_null[OF rok bl b] .
  have fr: "\<forall>y\<in>set bs. y \<noteq> b \<longrightarrow> (check_free ?m y \<longleftrightarrow> y \<in> set fl)" using flags by simp
  note cm = coalesce_merge[OF w b fr nx]
  show "nx \<in> set bs" "nx \<noteq> b" using cm(4,6) by simp_all
  then show bin: "b \<in> set (remove1 nx bs)" using b by simp
  show hy: "\<forall>y\<in>set bs. y \<noteq> b \<longrightarrow> payload_of (mem ?s') y = payload_of ?m y" using cm(3) .
  have al: "(get_payload ?m nx + ALIGNMENT) AND 7 = 0"
    using and_7_add[of 8 "get_payload ?m nx"] aligned_payload[of ?m nx] by (simp add: ALIGNMENT_def)
  have f1: "?v AND 7 = 1" using used_flag[OF bl b used bnn] .
  have f': "payload_of (mem ?s') b AND 7 = 1" using and_7_add[OF al, of ?v] f1 cm(2) by simp
  then show ub: "\<not> check_free (mem ?s') b" by (simp add: check_free_alt)
  have bl': "blocks (mem ?s') (segment_start ?s') (heap_end ?s') (remove1 nx bs)"
    using cm(1) by (simp add: wf_def)
  have e: "unat (heap_end ?s') < 2 ^ 64" using unsigned_less[of "heap_end ?s'"] by simp
  have gp: "get_payload (mem ?s') b = get_payload ?m b + (get_payload ?m nx + ALIGNMENT)"
    using and_m8_add[OF al, of ?v] cm(2) by (simp add: get_payload_alt)
  have "unat nx + 8 + unat (get_payload ?m nx) \<le> unat (heap_end s)"
    using blocks_bounds[OF bl cm(4)] by simp
  moreover have "unat nx = unat b + unat (get_payload ?m b) + 8"
    using unat_next[of b "get_payload ?m b" "heap_end s"] blocks_bounds[OF bl b] nx(1) by simp
  moreover have "unat (heap_end s) < 2 ^ 64" using unsigned_less[of "heap_end s"] by simp
  ultimately have "unat (get_payload ?m b) + unat (get_payload ?m nx) + 8 < 2 ^ 64" by simp
  then show "unat (get_payload (mem ?s') b) =
           unat (get_payload ?m b) + unat (get_payload ?m nx) + 8"
    unfolding gp by (simp add: unat_word_ariths ALIGNMENT_def)
  have "\<forall>y\<in>set (remove1 nx bs). check_free (mem ?s') y \<longleftrightarrow> y \<in> set (remove1 nx fl)"
  proof
    fix y assume y: "y \<in> set (remove1 nx bs)"
    from y blocks_distinct[OF bl] have yA: "y \<in> set bs" and ynx: "y \<noteq> nx" by auto
    show "check_free (mem ?s') y \<longleftrightarrow> y \<in> set (remove1 nx fl)"
    proof (cases "y = b")
      case True
      then show ?thesis using ub flags[OF b] used dis by (auto dest: notin_set_remove1)
    next
      case False
      then have "check_free (mem ?s') y \<longleftrightarrow> check_free ?m y"
        using hy yA check_free_cong[of "mem ?s'" y ?m] by blast
      then show ?thesis using flags[OF yA] ynx dis by simp
    qed
  qed
  then show "heap_inv ?s' (remove1 nx bs) (remove1 nx fl)" using cm(1) by (simp add: heap_inv_def)
qed

lemma coalesce_multiple_blocks_inv:
  assumes "heap_inv s bs fl" "b \<in> set bs" "\<not> check_free (mem s) b"
  shows "\<exists>s1 bs1 fl1. coalesce_multiple_blocks s b req = Some s1 \<and> heap_inv s1 bs1 fl1
     \<and> b \<in> set bs1 \<and> \<not> check_free (mem s1) b \<and> set bs1 \<subseteq> set bs
     \<and> (\<forall>y\<in>set bs. y \<noteq> b \<longrightarrow> \<not> check_free (mem s) y \<longrightarrow> y \<in> set bs1)
     \<and> (\<forall>y\<in>set bs1. y \<noteq> b \<longrightarrow> payload_of (mem s1) y = payload_of (mem s) y)
     \<and> unat (get_payload (mem s) b) \<le> unat (get_payload (mem s1) b)
     \<and> heap_end s1 = heap_end s
     \<and> \<not> (check_free (mem s1) (get_next_block s1 b) \<and> get_payload (mem s1) b < req)
     \<and> (\<not> get_payload (mem s) b < req \<longrightarrow> s1 = s \<and> bs1 = bs \<and> fl1 = fl)"
  using assms
proof (induction "length bs" arbitrary: s bs fl rule: less_induct)
  case less
  let ?cond = "check_free (mem s) (get_next_block s b) \<and> get_payload (mem s) b < req"
  show ?case
  proof (cases ?cond)
    case False
    have "coalesce_multiple_blocks s b req = Some s"
      by (subst coalesce_multiple_blocks.simps) (simp only: False if_False)
    then show ?thesis using less.prems False by auto
  next
    case True
    define nx where "nx = b + get_payload (mem s) b + ALIGNMENT"
    have gnb: "get_next_block s b = (if nx = heap_end s then NULL else nx)"
      by (simp add: get_next_block_def Let_def nx_def)
    with True have ne: "nx \<noteq> heap_end s" and fx: "check_free (mem s) nx"
      by (auto simp: check_free_def split: if_splits)
    note cu = coalesce_used[OF less.prems nx_def ne fx]
    have len: "length (remove1 nx bs) < length bs"
      using cu(5) length_pos_if_in_set[OF cu(5)] by (simp add: length_remove1)
    from less.hyps[OF len cu(1) cu(7) cu(2)]
    obtain s1 bs1 fl1 where r: "coalesce_multiple_blocks (coalesce s b) b req = Some s1"
      "heap_inv s1 bs1 fl1" "b \<in> set bs1" "\<not> check_free (mem s1) b"
      "set bs1 \<subseteq> set (remove1 nx bs)"
      "\<forall>y\<in>set (remove1 nx bs). y \<noteq> b \<longrightarrow> \<not> check_free (mem (coalesce s b)) y \<longrightarrow> y \<in> set bs1"
      "\<forall>y\<in>set bs1. y \<noteq> b \<longrightarrow> payload_of (mem s1) y = payload_of (mem (coalesce s b)) y"
      "unat (get_payload (mem (coalesce s b)) b) \<le> unat (get_payload (mem s1) b)"
      "heap_end s1 = heap_end (coalesce s b)"
      "\<not> (check_free (mem s1) (get_next_block s1 b) \<and> get_payload (mem s1) b < req)"
      by blast
    have 1: "coalesce_multiple_blocks s b req = Some s1"
      by (subst coalesce_multiple_blocks.simps) (simp only: True if_True r(1) simp_thms)
    have sub: "set bs1 \<subseteq> set bs" using r(5) set_remove1_subset[of nx bs] by blast
    have 2: "\<forall>y\<in>set bs. y \<noteq> b \<longrightarrow> \<not> check_free (mem s) y \<longrightarrow> y \<in> set bs1"
    proof (intro ballI impI)
      fix y assume y: "y \<in> set bs" "y \<noteq> b" "\<not> check_free (mem s) y"
      then have "y \<noteq> nx" using fx by auto
      then have "y \<in> set (remove1 nx bs)" using y(1) by simp
      moreover have "\<not> check_free (mem (coalesce s b)) y"
        using cu(3) y check_free_cong[of "mem (coalesce s b)" y "mem s"] by blast
      ultimately show "y \<in> set bs1" using r(6) y(2) by blast
    qed
    have 3: "\<forall>y\<in>set bs1. y \<noteq> b \<longrightarrow> payload_of (mem s1) y = payload_of (mem s) y"
      using r(7) cu(3) sub by auto
    have 4: "unat (get_payload (mem s) b) \<le> unat (get_payload (mem s1) b)"
      using r(8) cu(4) by simp
    have 5: "heap_end s1 = heap_end s" using r(9) by (simp add: coalesce_globals)
    show ?thesis using 1 r(2,3,4,10) sub 2 3 4 5 True by blast
  qed
qed

lemma load64_bytes_eq:
  assumes "unat b + 8 \<le> 2 ^ 64"
    and "\<And>x. unat b \<le> unat x \<Longrightarrow> unat x < unat b + 8 \<Longrightarrow> m' x = m x"
  shows "load64 m' b = load64 m b"
proof (rule load64_cong)
  fix k :: "64 word" assume "k < 8"
  then have k: "unat k < 8" by (simp add: word_less_nat_alt)
  then have "unat (b + k) = unat b + unat k" using assms(1) by (simp add: unat_word_ariths)
  then show "m' (b + k) = m (b + k)" using assms(2)[of "b + k"] k by simp
qed

lemma memcpy_outside:
  assumes "unat dst + unat n \<le> 2 ^ 64" "\<not> (unat dst \<le> unat x \<and> unat x < unat dst + unat n)"
  shows "memcpy m dst src n x = m x"
  using in_range[OF assms(1), of x] assms(2) by (simp add: memcpy_def)

lemma memcpy_inside:
  assumes "unat dst + unat n \<le> 2 ^ 64" "unat dst \<le> unat x" "unat x < unat dst + unat n"
  shows "memcpy m dst src n x = m (src + (x - dst))"
  using in_range[OF assms(1), of x] assms(2,3) by (simp add: memcpy_def)

lemma heap_inv_payload_write:
  assumes inv: "heap_inv s bs fl" and f: "f \<in> set bs" and used: "\<not> check_free (mem s) f"
    and frame: "\<And>x. \<not> (unat f + 8 \<le> unat x \<and> unat x < unat f + 8 + unat (get_payload (mem s) f))
                  \<Longrightarrow> m' x = mem s x"
  shows "heap_inv (s\<lparr>mem := m'\<rparr>) bs fl"
    and "\<forall>y\<in>set bs. payload_of m' y = payload_of (mem s) y"
proof -
  let ?m = "mem s"
  note w = heap_invD(1)[OF inv] and flags = heap_invD(2)[OF inv]
  from w have rok: "region_ok s" and bl: "blocks ?m (segment_start s) (heap_end s) bs"
    and d: "dll ?m NULL (freelist_start s) fl"
    and dis: "distinct fl" and sub: "set fl \<subseteq> set bs"
    by (simp_all add: wf_def)
  have e: "unat (heap_end s) < 2 ^ 64" using unsigned_less[of "heap_end s"] by simp
  show hd: "\<forall>y\<in>set bs. payload_of m' y = payload_of ?m y"
  proof
    fix y assume y: "y \<in> set bs"
    have yb: "unat y + 8 + unat (get_payload ?m y) \<le> unat (heap_end s)"
      using blocks_bounds[OF bl y] by simp
    show "payload_of m' y = payload_of ?m y"
      unfolding payload_of_def
    proof (rule load64_bytes_eq)
      show "unat y + 8 \<le> 2 ^ 64" using yb e by simp
      fix x :: addr assume x: "unat y \<le> unat x" "unat x < unat y + 8"
      show "m' x = ?m x"
      proof (cases "y = f")
        case True
        then show ?thesis using x frame[of x] by simp
      next
        case False
        from blocks_extent_disj[OF bl y f False] x show ?thesis using frame[of x] by auto
      qed
    qed
  qed
  have "\<forall>z\<in>set fl. prev_of m' z = prev_of ?m z \<and> next_of m' z = next_of ?m z"
  proof
    fix z assume zf: "z \<in> set fl"
    then have z: "z \<in> set bs" and zne: "z \<noteq> f" using sub flags[OF f] used by auto
    have bz: "unat z + 8 + unat (get_payload ?m z) \<le> unat (heap_end s)"
      "16 \<le> unat (get_payload ?m z)"
      using blocks_bounds[OF bl z] by simp_all
    have fz: "fits z" using blocks_fits[OF bl z] .
    note dj = blocks_extent_disj[OF bl z f zne]
    have "load64 m' (z + 8) = load64 ?m (z + 8)"
    proof (rule load64_bytes_eq)
      show "unat (z + 8) + 8 \<le> 2 ^ 64" using fits_unat[OF fz] fz by (simp add: fits_def)
      fix x :: addr assume "unat (z + 8) \<le> unat x" "unat x < unat (z + 8) + 8"
      then show "m' x = ?m x" using fits_unat[OF fz] dj bz frame[of x] by auto
    qed
    moreover have "load64 m' (z + 16) = load64 ?m (z + 16)"
    proof (rule load64_bytes_eq)
      show "unat (z + 16) + 8 \<le> 2 ^ 64" using fits_unat[OF fz] fz by (simp add: fits_def)
      fix x :: addr assume "unat (z + 16) \<le> unat x" "unat x < unat (z + 16) + 8"
      then show "m' x = ?m x" using fits_unat[OF fz] dj bz frame[of x] by auto
    qed
    ultimately show "prev_of m' z = prev_of ?m z \<and> next_of m' z = next_of ?m z"
      by (simp add: prev_of_def next_of_def)
  qed
  from dll_frame[OF d this] have d': "dll m' NULL (freelist_start s) fl" .
  have "\<forall>y\<in>set bs. check_free m' y \<longleftrightarrow> y \<in> set fl"
    using hd flags check_free_cong[of m' _ ?m] by blast
  then show "heap_inv (s\<lparr>mem := m'\<rparr>) bs fl"
    using blocks_frame[OF bl hd] d' rok dis sub by (simp add: heap_inv_def wf_def region_ok_def)
qed

lemma realloc_tail_split:
  assumes inv: "heap_inv s bs fl" and b: "b \<in> set bs" and used: "\<not> check_free (mem s) b"
    and r: "16 \<le> unat r" "r AND 7 = 0" "unat r + 24 \<le> unat (get_payload (mem s) b)"
    and tail: "b + get_payload (mem s) b + ALIGNMENT = heap_end s"
    and new: "new = b + r + ALIGNMENT"
    and s': "s' = add_freelist (s\<lparr>mem := store64 (store64 (mem s) new
                     (get_payload (mem s) b - r - ALIGNMENT)) b (r + 1)\<rparr>) new"
  shows "heap_inv s' (bs @ [new]) (new # fl)"
    and "payload_of (mem s') b = r + 1"
    and "payload_of (mem s') new = get_payload (mem s) b - r - ALIGNMENT"
    and "\<forall>y\<in>set bs. y \<noteq> b \<longrightarrow> payload_of (mem s') y = payload_of (mem s) y"
proof -
  let ?m = "mem s" and ?P = "get_payload (mem s) b"
  define s1 where "s1 = s\<lparr>mem := store64 (store64 ?m b (r + 1)) new (?P - r - ALIGNMENT)\<rparr>"
  note w = heap_invD(1)[OF inv] and flags = heap_invD(2)[OF inv]
  from w have rok: "region_ok s" and bl: "blocks ?m (segment_start s) (heap_end s) bs"
    and dis: "distinct fl" and sub: "set fl \<subseteq> set bs"
    by (simp_all add: wf_def)
  note nf = split_new_far[OF bl b r(1,3) new]
  have fb: "fits b" using blocks_fits[OF bl b] .
  have "store64 (store64 ?m new (?P - r - ALIGNMENT)) b (r + 1) = mem s1"
    unfolding s1_def using store64_commute[of new b ?m] nf(2,3) fb
    by (auto simp: far_def fits_def)
  then have e: "s' = add_freelist s1 new" using s' by (simp add: s1_def)
  note sp = wf_split[OF w b r(1,2,3) new s1_def]
  have lb: "b = last bs" using blocks_last[OF bl b] tail by simp
  have "bs \<noteq> []" using b by auto
  from insert_after_last[OF blocks_distinct[OF bl] this, of new] lb
  have ia: "insert_after b new bs = bs @ [new]" by simp
  have w1: "wf s1 (bs @ [new]) fl" using sp(1) ia by simp
  have newin: "new \<in> set (bs @ [new])" by simp
  have newfl: "new \<notin> set fl" using nf(4) sub by blast
  note af = add_freelist_wf[OF w1 newin newfl]
  show hb: "payload_of (mem s') b = r + 1" using af(2) sp(2) b unfolding e by simp
  show hn: "payload_of (mem s') new = ?P - r - ALIGNMENT" using af(2) sp(3) unfolding e by simp
  show hy: "\<forall>y\<in>set bs. y \<noteq> b \<longrightarrow> payload_of (mem s') y = payload_of ?m y"
    using af(2) sp(4) unfolding e by simp
  have al: "(?P - r - ALIGNMENT) AND 7 = 0" using aligned_diff[OF aligned_payload r(2)] .
  have rok1: "region_ok s1" using w1 by (simp add: wf_def)
  have newnn: "new \<noteq> NULL" using blocks_not_null[OF rok1 _ newin] w1 by (simp add: wf_def)
  have bnew: "b \<noteq> new" using nf(3) far_neq by blast
  have "\<forall>y\<in>set (bs @ [new]). check_free (mem s') y \<longleftrightarrow> y \<in> set (new # fl)"
  proof
    fix y assume "y \<in> set (bs @ [new])"
    then consider "y = new" | "y = b" | "y \<in> set bs" "y \<noteq> b" "y \<noteq> new" by auto
    then show "check_free (mem s') y \<longleftrightarrow> y \<in> set (new # fl)"
    proof cases
      case 1 then show ?thesis using al newnn by (simp add: check_free_alt hn)
    next
      case 2
      then show ?thesis using hdr_mark_used(1)[OF r(2)] flags[OF b] used bnew
        by (simp add: check_free_alt hb)
    next
      case 3
      then have "check_free (mem s') y \<longleftrightarrow> check_free ?m y"
        using hy check_free_cong[of "mem s'" y ?m] by blast
      then show ?thesis using flags[OF 3(1)] 3 by simp
    qed
  qed
  then show "heap_inv s' (bs @ [new]) (new # fl)" using af(1) unfolding e by (simp add: heap_inv_def)
qed

lemma myrealloc_unfold:
  assumes "fits b" "n \<noteq> 0"
    and "coalesce_multiple_blocks s b (roundup n ALIGNMENT) = Some s1"
  shows "myrealloc M s (b + ALIGNMENT) n =
     (let r = roundup n ALIGNMENT; P1 = get_payload (mem s1) b; new = b + r + ALIGNMENT in
      if r \<le> P1 then
        Some (Inr
          (if b + P1 + ALIGNMENT = heap_end s1 then
             (if r + ALIGNMENT * 3 < P1 then
                add_freelist (s1\<lparr>mem := store64 (store64 (mem s1) new (P1 - r - ALIGNMENT))
                                b (r + 1)\<rparr>) new
              else s1)
           else (if r + ALIGNMENT * 3 \<le> get_payload (mem s) b then add_block s1 b r else s1),
           b + ALIGNMENT))
      else
        (case mymalloc M s1 n of
           None \<Rightarrow> None
         | Some (s2, q) \<Rightarrow>
             if q = NULL then Some (Inl NullWrite)
             else Some (Inr (myfree (s2\<lparr>mem := memcpy (mem s2) q (b + ALIGNMENT)
                                          (get_payload (mem s) b)\<rparr>)
                               (b + ALIGNMENT), q))))"
proof -
  have 1: "b + ALIGNMENT \<noteq> NULL" "b + ALIGNMENT - ALIGNMENT = b" using ptr_of_block[OF assms(1)] by simp_all
  have 2: "get_payload (mem s1) b + (b + ALIGNMENT) = b + get_payload (mem s1) b + ALIGNMENT"
    by (simp add: algebra_simps)
  have 3: "b + ALIGNMENT + roundup n ALIGNMENT = b + roundup n ALIGNMENT + ALIGNMENT"
    by (simp add: algebra_simps)
  show ?thesis
    using assms(2) 1
    by (simp add: myrealloc_def Let_def assms(3) add_freelist_globals ac_simps
        split: option.splits prod.splits)
qed

lemma keeps_refl: "keeps s bs s bs b"
  by (simp add: keeps_def)

lemma keeps_trans:
  assumes "keeps s bs s1 bs1 b" "keeps s1 bs1 s2 bs2 b"
  shows "keeps s bs s2 bs2 b"
  unfolding keeps_def
proof (intro ballI impI)
  fix y assume y: "y \<in> set bs" "y \<noteq> b" "\<not> check_free (mem s) y"
  with assms(1) have 1: "y \<in> set bs1" "payload_of (mem s1) y = payload_of (mem s) y"
    by (simp_all add: keeps_def)
  then have "\<not> check_free (mem s1) y" using y(3) check_free_cong[of "mem s1" y "mem s"] by simp
  with assms(2) 1 y(2) show "y \<in> set bs2 \<and> payload_of (mem s2) y = payload_of (mem s) y"
    by (simp add: keeps_def)
qed

lemma keepsI:
  assumes "set bs \<subseteq> set bs' \<union> X" "\<forall>y\<in>X. check_free (mem s) y \<or> y = b"
    and "\<forall>y\<in>set bs. y \<noteq> b \<longrightarrow> payload_of (mem s') y = payload_of (mem s) y"
  shows "keeps s bs s' bs' b"
  using assms unfolding keeps_def by blast

lemma myrealloc_inplace:
  assumes inv1: "heap_inv s1 bs1 fl1" and b1: "b \<in> set bs1" and used1: "\<not> check_free (mem s1) b"
    and n0: "n \<noteq> 0"
    and loop: "coalesce_multiple_blocks s b (roundup n ALIGNMENT) = Some s1"
    and same: "\<not> get_payload (mem s) b < roundup n ALIGNMENT \<Longrightarrow> s1 = s"
    and le: "unat (get_payload (mem s) b) \<le> unat (get_payload (mem s1) b)"
    and fit: "roundup n ALIGNMENT \<le> get_payload (mem s1) b"
  shows "\<exists>s' bs' fl'. myrealloc M s (b + ALIGNMENT) n = Some (Inr (s', b + ALIGNMENT))
            \<and> heap_inv s' bs' fl' \<and> b \<in> set bs' \<and> \<not> check_free (mem s') b
            \<and> keeps s1 bs1 s' bs' b"
proof -
  let ?r = "roundup n ALIGNMENT" and ?P1 = "get_payload (mem s1) b"
  let ?new = "b + ?r + ALIGNMENT"
  note w = heap_invD(1)[OF inv1]
  from w have bl: "blocks (mem s1) (segment_start s1) (heap_end s1) bs1" by (simp add: wf_def)
  have fb: "fits b" using blocks_fits[OF bl b1] .
  note unf = myrealloc_unfold[OF fb n0 loop, of M]
  have ur: "unat ?r + 24 < 2 ^ 64" using payload_bound[OF w b1] fit by (simp add: word_le_nat_alt)
  have r16: "16 \<le> unat ?r" "?r AND 7 = 0"
    using roundup_ge_16[of n] roundup_aligned[of n]
    by (simp_all add: ALIGNMENT_def word_le_nat_alt)
  show ?thesis
  proof (cases "b + ?P1 + ALIGNMENT = heap_end s1")
    case tail: True
    show ?thesis
    proof (cases "?r + ALIGNMENT * 3 < ?P1")
      case True
      define s' where "s' = add_freelist (s1\<lparr>mem := store64 (store64 (mem s1) ?new
                           (?P1 - ?r - ALIGNMENT)) b (?r + 1)\<rparr>) ?new"
      have eq: "myrealloc M s (b + ALIGNMENT) n = Some (Inr (s', b + ALIGNMENT))"
        using unf fit tail True by (simp add: Let_def s'_def)
      have sl: "unat ?r + 24 \<le> unat ?P1" using True slack_le(2)[OF ur] by simp
      note ts = realloc_tail_split[OF inv1 b1 used1 r16 sl tail refl s'_def]
      have "\<not> check_free (mem s') b"
        using hdr_mark_used(1)[OF r16(2)] ts(2) by (simp add: check_free_alt)
      moreover have "keeps s1 bs1 s' (bs1 @ [?new]) b" using ts(4) by (simp add: keeps_def)
      ultimately show ?thesis using eq ts(1) b1 by (intro exI[of _ s'] exI[of _ "bs1 @ [?new]"]
            exI[of _ "?new # fl1"]) simp
    next
      case False
      have "myrealloc M s (b + ALIGNMENT) n = Some (Inr (s1, b + ALIGNMENT))"
        using unf fit tail False by (simp add: Let_def)
      then show ?thesis using inv1 b1 used1 keeps_refl by blast
    qed
  next
    case nontail: False
    show ?thesis
    proof (cases "?r + ALIGNMENT * 3 \<le> get_payload (mem s) b")
      case True
      have eq: "myrealloc M s (b + ALIGNMENT) n = Some (Inr (add_block s1 b ?r, b + ALIGNMENT))"
        using unf fit nontail True by (simp add: Let_def)
      have "unat ?r + 24 \<le> unat (get_payload (mem s) b)" using True slack_le(1)[OF ur] by simp
      then have sl: "unat ?r + 24 \<le> unat ?P1" using le by simp
      note ab = add_block_inv[OF inv1 b1 r16 sl refl refl refl refl refl]
      have "\<not> check_free (mem (add_block s1 b ?r)) b"
        using hdr_mark_used(1)[OF r16(2)] ab(2) by (simp add: check_free_alt)
      moreover have "keeps s1 bs1 (add_block s1 b ?r)
          (if b + ?P1 + ALIGNMENT \<noteq> heap_end s1 \<and> check_free (mem s1) (b + ?P1 + ALIGNMENT)
           then remove1 (b + ?P1 + ALIGNMENT) (insert_after b ?new bs1)
           else insert_after b ?new bs1) b"
        unfolding keeps_def
      proof (intro ballI impI)
        fix y assume y: "y \<in> set bs1" "y \<noteq> b" "\<not> check_free (mem s1) y"
        have "y \<in> set (insert_after b ?new bs1)" using insert_after_set[OF b1, of ?new] y(1) by simp
        moreover have "check_free (mem s1) (b + ?P1 + ALIGNMENT) \<Longrightarrow> y \<noteq> b + ?P1 + ALIGNMENT"
          using y(3) by auto
        ultimately show "y \<in> set (if b + ?P1 + ALIGNMENT \<noteq> heap_end s1 \<and> check_free (mem s1) (b + ?P1 + ALIGNMENT)
           then remove1 (b + ?P1 + ALIGNMENT) (insert_after b ?new bs1)
           else insert_after b ?new bs1) \<and>
           payload_of (mem (add_block s1 b ?r)) y = payload_of (mem s1) y"
          using ab(3) y(1,2) by (simp add: in_set_remove1)
      qed
      moreover have "b \<in> set (if b + ?P1 + ALIGNMENT \<noteq> heap_end s1 \<and> check_free (mem s1) (b + ?P1 + ALIGNMENT)
           then remove1 (b + ?P1 + ALIGNMENT) (insert_after b ?new bs1)
           else insert_after b ?new bs1)"
      proof -
        have "b \<in> set (insert_after b ?new bs1)" using insert_after_set[OF b1, of ?new] b1 by simp
        moreover have "check_free (mem s1) (b + ?P1 + ALIGNMENT) \<Longrightarrow> b \<noteq> b + ?P1 + ALIGNMENT"
          using used1 by metis
        ultimately show ?thesis by (simp add: in_set_remove1)
      qed
      ultimately show ?thesis using eq ab(1) by blast
    next
      case False
      have "myrealloc M s (b + ALIGNMENT) n = Some (Inr (s1, b + ALIGNMENT))"
        using unf fit nontail False by (simp add: Let_def)
      then show ?thesis using inv1 b1 used1 keeps_refl by blast
    qed
  qed
qed

lemma mymalloc_inv:
  assumes inv: "heap_inv s bs fl"
  shows "mymalloc M s n = Some (s, NULL)
     \<or> (\<exists>s' f bs' fl'. mymalloc M s n = Some (s', f + ALIGNMENT) \<and> f \<in> set fl
           \<and> heap_inv s' bs' fl' \<and> f \<in> set bs' \<and> \<not> check_free (mem s') f
           \<and> set bs \<subseteq> set bs'
           \<and> (\<forall>y\<in>set bs. y \<noteq> f \<longrightarrow> payload_of (mem s') y = payload_of (mem s) y)
           \<and> roundup n ALIGNMENT \<le> get_payload (mem s') f)"
proof -
  let ?r = "roundup n ALIGNMENT"
  let ?fnd = "find (\<lambda>x. ?r \<le> get_payload (mem s) x) fl"
  show ?thesis
  proof (cases "?fnd = None \<or> M < ?r")
    case True
    from mymalloc_null[OF inv refl this] show ?thesis by simp
  next
    case False
    then obtain f where fnd: "?fnd = Some f" and max: "\<not> M < ?r" by auto
    from fnd have ff: "f \<in> set fl" and rP: "?r \<le> get_payload (mem s) f"
      by (auto simp: find_Some_iff)
    note w = heap_invD(1)[OF inv] and flags = heap_invD(2)[OF inv]
    from w have sub: "set fl \<subseteq> set bs" by (simp add: wf_def)
    have fb: "f \<in> set bs" using ff sub by blast
    have fr: "payload_of (mem s) f AND 7 = 0" using flags[OF fb] ff by (simp add: check_free_alt)
    have r16: "?r AND 7 = 0" using roundup_aligned[of n] by (simp add: ALIGNMENT_def)
    define cond where "cond \<longleftrightarrow> f + get_payload (mem s) f + ALIGNMENT = heap_end s
                     \<and> ?r + ALIGNMENT * 3 \<le> get_payload (mem s) f"
    from mymalloc_found[OF inv refl fnd max, of cond] cond_def
    obtain s' where s': "mymalloc M s n = Some (s', f + ALIGNMENT)"
      and cs: "if cond
         then heap_inv s' (bs @ [f + ?r + ALIGNMENT]) ((f + ?r + ALIGNMENT) # remove1 f fl)
              \<and> payload_of (mem s') f = ?r + 1
              \<and> payload_of (mem s') (f + ?r + ALIGNMENT) = get_payload (mem s) f - ?r - ALIGNMENT
         else heap_inv s' bs (remove1 f fl)
              \<and> payload_of (mem s') f = payload_of (mem s) f + 1"
      and hy: "\<forall>y\<in>set bs. y \<noteq> f \<longrightarrow> payload_of (mem s') y = payload_of (mem s) y"
      by blast
    show ?thesis
    proof (cases cond)
      case True
      with cs have 1: "heap_inv s' (bs @ [f + ?r + ALIGNMENT]) ((f + ?r + ALIGNMENT) # remove1 f fl)"
        and 2: "payload_of (mem s') f = ?r + 1" by simp_all
      have "\<not> check_free (mem s') f" "get_payload (mem s') f = ?r"
        using hdr_mark_used[OF r16] 2 by (simp_all add: check_free_alt get_payload_alt)
      then show ?thesis using s' ff 1 fb hy
        by (intro disjI2 exI[of _ s'] exI[of _ f] exI[of _ "bs @ [f + ?r + ALIGNMENT]"]
            exI[of _ "(f + ?r + ALIGNMENT) # remove1 f fl"]) auto
    next
      case False
      with cs have 1: "heap_inv s' bs (remove1 f fl)"
        and 2: "payload_of (mem s') f = payload_of (mem s) f + 1" by simp_all
      have "\<not> check_free (mem s') f" "get_payload (mem s') f = get_payload (mem s) f"
        using hdr_mark_used[OF fr] aligned_get_payload[OF fr] 2
        by (simp_all add: check_free_alt get_payload_alt)
      then show ?thesis using s' ff 1 fb hy rP
        by (intro disjI2 exI[of _ s'] exI[of _ f] exI[of _ bs] exI[of _ "remove1 f fl"]) auto
    qed
  qed
qed

lemma myrealloc_move:
  assumes inv1: "heap_inv s1 bs1 fl1" and b1: "b \<in> set bs1" and used1: "\<not> check_free (mem s1) b"
    and n0: "n \<noteq> 0"
    and loop: "coalesce_multiple_blocks s b (roundup n ALIGNMENT) = Some s1"
    and le: "unat (get_payload (mem s) b) \<le> unat (get_payload (mem s1) b)"
    and nofit: "\<not> roundup n ALIGNMENT \<le> get_payload (mem s1) b"
  shows "myrealloc M s (b + ALIGNMENT) n = Some (Inl NullWrite)
     \<or> (\<exists>s' f bs' fl'. myrealloc M s (b + ALIGNMENT) n = Some (Inr (s', f + ALIGNMENT))
            \<and> f \<noteq> b \<and> heap_inv s' bs' fl' \<and> f \<in> set bs' \<and> \<not> check_free (mem s') f
            \<and> fits f \<and> keeps s1 bs1 s' bs' b)"
proof -
  let ?r = "roundup n ALIGNMENT" and ?P0 = "get_payload (mem s) b"
  note w1 = heap_invD(1)[OF inv1] and flags1 = heap_invD(2)[OF inv1]
  from w1 have bl1: "blocks (mem s1) (segment_start s1) (heap_end s1) bs1" by (simp add: wf_def)
  have fb: "fits b" using blocks_fits[OF bl1 b1] .
  note unf = myrealloc_unfold[OF fb n0 loop, of M]
  from mymalloc_inv[OF inv1, of M n]
  show ?thesis
  proof (elim disjE exE conjE)
    assume "mymalloc M s1 n = Some (s1, NULL)"
    then show ?thesis using unf nofit by (simp add: Let_def)
  next
    fix s2 f bs2 fl2
    assume mm: "mymalloc M s1 n = Some (s2, f + ALIGNMENT)" and ff: "f \<in> set fl1"
      and inv2: "heap_inv s2 bs2 fl2" and f2: "f \<in> set bs2" and usedf: "\<not> check_free (mem s2) f"
      and sub: "set bs1 \<subseteq> set bs2"
      and hy: "\<forall>y\<in>set bs1. y \<noteq> f \<longrightarrow> payload_of (mem s2) y = payload_of (mem s1) y"
      and big: "?r \<le> get_payload (mem s2) f"
    note w2 = heap_invD(1)[OF inv2]
    from w2 have bl2: "blocks (mem s2) (segment_start s2) (heap_end s2) bs2" by (simp add: wf_def)
    have ff2: "fits f" using blocks_fits[OF bl2 f2] .
    have fnb: "f \<noteq> b" using ff flags1[OF b1] used1 by auto
    define s3 where "s3 = s2\<lparr>mem := memcpy (mem s2) (f + ALIGNMENT) (b + ALIGNMENT) ?P0\<rparr>"
    have eq: "myrealloc M s (b + ALIGNMENT) n = Some (Inr (myfree s3 (b + ALIGNMENT), f + ALIGNMENT))"
      using unf nofit mm ptr_of_block(2)[OF ff2] by (simp add: Let_def s3_def)
    have small: "unat ?P0 \<le> unat (get_payload (mem s2) f)"
      using le nofit big by (simp add: word_le_nat_alt)
    have uf8: "unat (f + ALIGNMENT) = unat f + 8" using fits_unat[OF ff2] by (simp add: ALIGNMENT_def)
    have fbnd: "unat f + 8 + unat (get_payload (mem s2) f) \<le> unat (heap_end s2)"
      using blocks_bounds[OF bl2 f2] by simp
    have e: "unat (heap_end s2) < 2 ^ 64" using unsigned_less[of "heap_end s2"] by simp
    have frame: "\<And>x. \<not> (unat f + 8 \<le> unat x \<and> unat x < unat f + 8 + unat (get_payload (mem s2) f))
                  \<Longrightarrow> memcpy (mem s2) (f + ALIGNMENT) (b + ALIGNMENT) ?P0 x = mem s2 x"
    proof -
      fix x :: addr
      assume "\<not> (unat f + 8 \<le> unat x \<and> unat x < unat f + 8 + unat (get_payload (mem s2) f))"
      then show "memcpy (mem s2) (f + ALIGNMENT) (b + ALIGNMENT) ?P0 x = mem s2 x"
        using small uf8 fbnd e by (intro memcpy_outside) auto
    qed
    note pw = heap_inv_payload_write[OF inv2 f2 usedf frame]
    have inv3: "heap_inv s3 bs2 fl2" using pw(1) by (simp add: s3_def)
    have h3: "\<forall>y\<in>set bs2. payload_of (mem s3) y = payload_of (mem s2) y"
      using pw(2) by (simp add: s3_def)
    have b2: "b \<in> set bs2" using b1 sub by blast
    have hb3: "payload_of (mem s3) b = payload_of (mem s1) b" using h3 hy b1 b2 fnb by simp
    have used3: "\<not> check_free (mem s3) b"
      using used1 check_free_cong[OF hb3] by simp
    define nx where "nx = b + get_payload (mem s3) b + ALIGNMENT"
    define c where "c \<longleftrightarrow> nx \<noteq> heap_end s3 \<and> check_free (mem s3) nx"
    note mf = myfree_inv[OF inv3 b2 used3 nx_def c_def]
    define bs' where "bs' = (if c then remove1 nx bs2 else bs2)"
    have in': "\<And>y. y \<in> set bs2 \<Longrightarrow> \<not> check_free (mem s3) y \<Longrightarrow> y \<in> set bs'"
    proof -
      fix y assume y: "y \<in> set bs2" "\<not> check_free (mem s3) y"
      have "c \<Longrightarrow> y \<noteq> nx" using y(2) unfolding c_def by metis
      then show "y \<in> set bs'" using y(1) unfolding bs'_def by (simp add: in_set_remove1)
    qed
    have usedf3: "\<not> check_free (mem s3) f"
      using usedf h3 f2 check_free_cong[of "mem s3" f "mem s2"] by simp
    have 1: "f \<in> set bs'" using in'[OF f2 usedf3] .
    have "payload_of (mem (myfree s3 (b + ALIGNMENT))) f = payload_of (mem s3) f"
      using mf(3) f2 fnb by simp
    then have 2: "\<not> check_free (mem (myfree s3 (b + ALIGNMENT))) f"
      using usedf3 check_free_cong by blast
    have 3: "keeps s1 bs1 (myfree s3 (b + ALIGNMENT)) bs' b"
      unfolding keeps_def
    proof (intro ballI impI)
      fix y assume y: "y \<in> set bs1" "y \<noteq> b" "\<not> check_free (mem s1) y"
      then have yf: "y \<noteq> f" using ff flags1[OF y(1)] by auto
      have y2: "y \<in> set bs2" using y(1) sub by blast
      have p3: "payload_of (mem s3) y = payload_of (mem s1) y" using h3 hy y(1) y2 yf by simp
      then have "\<not> check_free (mem s3) y" using y(3) check_free_cong[OF p3] by simp
      then have "y \<in> set bs'" using in'[OF y2] by simp
      moreover have "payload_of (mem (myfree s3 (b + ALIGNMENT))) y = payload_of (mem s1) y"
        using mf(3) y2 y(2) p3 by simp
      ultimately show "y \<in> set bs' \<and> payload_of (mem (myfree s3 (b + ALIGNMENT))) y = payload_of (mem s1) y"
        by simp
    qed
    have "heap_inv (myfree s3 (b + ALIGNMENT)) bs' (if c then b # remove1 nx fl2 else b # fl2)"
      using mf(1) by (simp add: bs'_def)
    then show ?thesis using eq fnb 1 2 3 ff2 by blast
  qed
qed

lemma myrealloc_inv:
  assumes inv: "heap_inv s bs fl" and b: "b \<in> set bs" and used: "\<not> check_free (mem s) b"
    and n0: "n \<noteq> 0"
  shows "myrealloc M s (b + ALIGNMENT) n = Some (Inl NullWrite)
     \<or> (\<exists>s' f bs' fl'. myrealloc M s (b + ALIGNMENT) n = Some (Inr (s', f + ALIGNMENT))
            \<and> heap_inv s' bs' fl' \<and> f \<in> set bs' \<and> \<not> check_free (mem s') f
            \<and> fits f \<and> keeps s bs s' bs' b)"
proof -
  let ?r = "roundup n ALIGNMENT"
  from coalesce_multiple_blocks_inv[OF inv b used, of ?r]
  obtain s1 bs1 fl1 where loop: "coalesce_multiple_blocks s b ?r = Some s1"
    and inv1: "heap_inv s1 bs1 fl1" and b1: "b \<in> set bs1" and used1: "\<not> check_free (mem s1) b"
    and k1: "\<forall>y\<in>set bs. y \<noteq> b \<longrightarrow> \<not> check_free (mem s) y \<longrightarrow> y \<in> set bs1"
    and k2: "\<forall>y\<in>set bs1. y \<noteq> b \<longrightarrow> payload_of (mem s1) y = payload_of (mem s) y"
    and le: "unat (get_payload (mem s) b) \<le> unat (get_payload (mem s1) b)"
    and same: "\<not> get_payload (mem s) b < ?r \<longrightarrow> s1 = s \<and> bs1 = bs \<and> fl1 = fl"
    by blast
  have k: "keeps s bs s1 bs1 b" using k1 k2 by (auto simp: keeps_def)
  have "blocks (mem s1) (segment_start s1) (heap_end s1) bs1"
    using heap_invD(1)[OF inv1] by (simp add: wf_def)
  then have fb: "fits b" using b1 by (rule blocks_fits)
  show ?thesis
  proof (cases "?r \<le> get_payload (mem s1) b")
    case True
    from same have "\<not> get_payload (mem s) b < ?r \<Longrightarrow> s1 = s" by simp
    from myrealloc_inplace[OF inv1 b1 used1 n0 loop this le True, of M]
    show ?thesis using keeps_trans[OF k] fb by blast
  next
    case False
    from myrealloc_move[OF inv1 b1 used1 n0 loop le False, of M]
    show ?thesis using keeps_trans[OF k] by blast
  qed
qed

lemma live_ok_keeps:
  assumes "live_ok s bs live" "keeps s bs s' bs' b"
  shows "live_ok s' bs' (removeAll (b + ALIGNMENT) live)"
  unfolding live_ok_def
proof
  fix p assume "p \<in> set (removeAll (b + ALIGNMENT) live)"
  then have p: "p \<in> set live" "p \<noteq> b + ALIGNMENT" by auto
  then have 1: "p - ALIGNMENT \<in> set bs" "\<not> check_free (mem s) (p - ALIGNMENT)"
    using assms(1) by (simp_all add: live_ok_def)
  have "p - ALIGNMENT \<noteq> b" using p(2) by auto
  with assms(2) 1 have 2: "p - ALIGNMENT \<in> set bs'"
    "payload_of (mem s') (p - ALIGNMENT) = payload_of (mem s) (p - ALIGNMENT)"
    by (simp_all add: keeps_def)
  then show "p - ALIGNMENT \<in> set bs' \<and> \<not> check_free (mem s') (p - ALIGNMENT)"
    using 1(2) check_free_cong[OF 2(2)] by simp
qed

lemma live_ok_cons:
  assumes "live_ok s bs live" "f \<in> set bs" "\<not> check_free (mem s) f"
  shows "live_ok s bs ((f + ALIGNMENT) # live)"
  using assms by (simp add: live_ok_def)

lemma live_ok_not_null:
  assumes "heap_inv s bs fl" "live_ok s bs live"
  shows "NULL \<notin> set live"
proof
  assume "NULL \<in> set live"
  then have b: "NULL - ALIGNMENT \<in> set bs" using assms(2) unfolding live_ok_def by blast
  have "blocks (mem s) (segment_start s) (heap_end s) bs"
    using heap_invD(1)[OF assms(1)] by (simp add: wf_def)
  from blocks_fits[OF this b] have "unat (- (8::64 word)) + 24 \<le> 2 ^ 64"
    by (simp add: fits_def ALIGNMENT_def)
  then show False by simp
qed

lemma malloc_live:
  assumes inv: "heap_inv s bs fl" and lv: "live_ok s bs live"
    and mm: "mymalloc M s n = Some (s', p)"
  shows "\<exists>bs' fl'. heap_inv s' bs' fl' \<and> live_ok s' bs' (if p = NULL then live else p # live)"
proof -
  from mymalloc_inv[OF inv, of M n] show ?thesis
  proof (elim disjE exE conjE)
    assume "mymalloc M s n = Some (s, NULL)"
    then show ?thesis using mm inv lv by auto
  next
    fix s2 f bs2 fl2
    assume 1: "mymalloc M s n = Some (s2, f + ALIGNMENT)" and ff: "f \<in> set fl"
      and inv2: "heap_inv s2 bs2 fl2" and f2: "f \<in> set bs2" and usedf: "\<not> check_free (mem s2) f"
      and sub: "set bs \<subseteq> set bs2"
      and hy: "\<forall>y\<in>set bs. y \<noteq> f \<longrightarrow> payload_of (mem s2) y = payload_of (mem s) y"
    have e: "s' = s2" "p = f + ALIGNMENT" using 1 mm by simp_all
    have "blocks (mem s2) (segment_start s2) (heap_end s2) bs2"
      using heap_invD(1)[OF inv2] by (simp add: wf_def)
    from blocks_fits[OF this f2] have pn: "p \<noteq> NULL" using ptr_of_block(2) e by simp
    have "keeps s bs s2 bs2 f" using sub hy by (auto simp: keeps_def)
    from live_ok_keeps[OF lv this] have "live_ok s2 bs2 (removeAll (f + ALIGNMENT) live)" .
    moreover have "f + ALIGNMENT \<notin> set live"
    proof
      assume "f + ALIGNMENT \<in> set live"
      then have "\<not> check_free (mem s) f" using lv by (auto simp: live_ok_def)
      moreover have "f \<in> set bs" using ff heap_invD(1)[OF inv] by (auto simp: wf_def)
      ultimately show False using heap_invD(2)[OF inv] ff by blast
    qed
    ultimately have "live_ok s2 bs2 live" by simp
    from live_ok_cons[OF this f2 usedf] show ?thesis using inv2 e pn by auto
  qed
qed

lemma free_live:
  assumes inv: "heap_inv s bs fl" and lv: "live_ok s bs live" and p: "p = NULL \<or> p \<in> set live"
  shows "\<exists>bs' fl'. heap_inv (myfree s p) bs' fl' \<and> live_ok (myfree s p) bs' (removeAll p live)"
proof (cases "p = NULL")
  case True
  then have "myfree s p = s" by (simp add: myfree_def)
  moreover have "removeAll p live = live" using live_ok_not_null[OF inv lv] True by simp
  ultimately show ?thesis using inv lv by auto
next
  case False
  define b where "b = p - ALIGNMENT"
  have pb: "p = b + ALIGNMENT" by (simp add: b_def)
  from False p lv have b: "b \<in> set bs" and used: "\<not> check_free (mem s) b"
    by (auto simp: live_ok_def b_def)
  define nx where "nx = b + get_payload (mem s) b + ALIGNMENT"
  define c where "c \<longleftrightarrow> nx \<noteq> heap_end s \<and> check_free (mem s) nx"
  note mf = myfree_inv[OF inv b used nx_def c_def]
  have "keeps s bs (myfree s (b + ALIGNMENT)) (if c then remove1 nx bs else bs) b"
    unfolding keeps_def
  proof (intro ballI impI)
    fix y assume y: "y \<in> set bs" "y \<noteq> b" "\<not> check_free (mem s) y"
    have "c \<Longrightarrow> y \<noteq> nx" using y(3) unfolding c_def by metis
    then show "y \<in> set (if c then remove1 nx bs else bs)
       \<and> payload_of (mem (myfree s (b + ALIGNMENT))) y = payload_of (mem s) y"
      using y mf(3) by (simp add: in_set_remove1)
  qed
  from live_ok_keeps[OF lv this] mf(1) show ?thesis unfolding pb by blast
qed

lemma realloc_live:
  assumes inv: "heap_inv s bs fl" and lv: "live_ok s bs live" and p: "p = NULL \<or> p \<in> set live"
    and rr: "myrealloc M s p n = Some (Inr (s', q))"
  shows "\<exists>bs' fl'. heap_inv s' bs' fl'
           \<and> live_ok s' bs' (if q = NULL then removeAll p live else q # removeAll p live)"
proof (cases "p = NULL")
  case True
  then have "mymalloc M s n = Some (s', q)" using rr by (auto simp: myrealloc_def)
  from malloc_live[OF inv lv this] obtain bs' fl' where
    "heap_inv s' bs' fl'" "live_ok s' bs' (if q = NULL then live else q # live)" by blast
  moreover have "removeAll p live = live" using True live_ok_not_null[OF inv lv] by simp
  ultimately show ?thesis by (cases "q = NULL") auto
next
  case pn: False
  define b where "b = p - ALIGNMENT"
  have pb: "p = b + ALIGNMENT" by (simp add: b_def)
  from pn p lv have b: "b \<in> set bs" and used: "\<not> check_free (mem s) b"
    by (auto simp: live_ok_def b_def)
  show ?thesis
  proof (cases "n = 0")
    case True
    then have "s' = myfree s p" "q = NULL" using rr pn by (auto simp: myrealloc_def Let_def)
    then show ?thesis using free_live[OF inv lv p] by simp
  next
    case False
    from myrealloc_inv[OF inv b used False, of M] rr
    obtain f bs' fl' where 1: "q = f + ALIGNMENT" "heap_inv s' bs' fl'" "f \<in> set bs'"
      "\<not> check_free (mem s') f" "fits f" "keeps s bs s' bs' b"
      unfolding pb by auto
    from live_ok_keeps[OF lv 1(6)] have "live_ok s' bs' (removeAll p live)" by (simp add: pb)
    from live_ok_cons[OF this 1(3,4)] show ?thesis using 1(1,2) ptr_of_block(2)[OF 1(5)] by auto
  qed
qed

lemma apply_call_inv:
  assumes "heap_inv s bs fl" "live_ok s bs live" "apply_call M (s, live) c = Some (s', live')"
  shows "\<exists>bs' fl'. heap_inv s' bs' fl' \<and> live_ok s' bs' live'"
proof (cases c)
  case (Init a n)
  with assms(3) have v: "valid_region a n" and e: "s' = fst (myinit s a n)"
    "live' = (if snd (myinit s a n) then [] else live)"
    by (auto split: if_splits prod.splits)
  show ?thesis
  proof (cases "snd (myinit s a n)")
    case True
    then have "myinit s a n = (s', True)" using e by (metis prod.collapse)
    from myinit_inv[OF v this] show ?thesis using e True by (auto simp: live_ok_def)
  next
    case False
    then have "s' = s" using e by (auto simp: myinit_def Let_def split: if_splits)
    then show ?thesis using assms(1,2) e False by auto
  qed
next
  case (Malloc n)
  with assms(3) obtain p where "mymalloc M s n = Some (s', p)"
    "live' = (if p = NULL then live else p # live)"
    by (auto split: option.splits)
  then show ?thesis using malloc_live[OF assms(1,2)] by blast
next
  case (Free p)
  with assms(3) have "p = NULL \<or> p \<in> set live" "s' = myfree s p" "live' = removeAll p live"
    by (auto split: if_splits)
  then show ?thesis using free_live[OF assms(1,2)] by blast
next
  case (Realloc p n)
  with assms(3) obtain q where "p = NULL \<or> p \<in> set live" "myrealloc M s p n = Some (Inr (s', q))"
    "live' = (if q = NULL then removeAll p live else q # removeAll p live)"
    by (auto split: if_splits option.splits sum.splits)
  then show ?thesis using realloc_live[OF assms(1,2)] by blast
qed

lemma run_inv:
  assumes "heap_inv s bs fl" "live_ok s bs live" "run M (s, live) cs = Some (s', live')"
  shows "\<exists>bs' fl'. heap_inv s' bs' fl' \<and> live_ok s' bs' live'"
  using assms
proof (induction cs arbitrary: s bs fl live)
  case Nil
  then show ?case by auto
next
  case (Cons c cs)
  then obtain s1 live1 where 1: "apply_call M (s, live) c = Some (s1, live1)"
    and 2: "run M (s1, live1) cs = Some (s', live')"
    by (auto split: option.splits)
  from apply_call_inv[OF Cons.prems(1,2) 1] obtain bs1 fl1
    where "heap_inv s1 bs1 fl1" "live_ok s1 bs1 live1" by blast
  from Cons.IH[OF this 2] show ?case .
qed

lemma reachable_inv:
  assumes "valid_region a n" "myinit s0 a n = (s1, True)" "run M (s1, []) cs = Some (s, live)"
  shows "\<exists>bs fl. heap_inv s bs fl \<and> live_ok s bs live"
proof -
  have "live_ok s1 [a] []" by (simp add: live_ok_def)
  from run_inv[OF myinit_inv[OF assms(1,2)] this assms(3)] show ?thesis .
qed

end
